theory Spec2Isabelle
  imports Main "HOL-Library.Word"
begin

unbundle bit_operations_syntax

section \<open>X86 shuffle-mask decoding (lib/Target/X86/Utils/X86ShuffleDecode.cpp)\<close>

text \<open>
  Every decoder of the file takes the encoded operand of a shuffle instruction and pushes one
  \<open>int\<close> per destination element onto the caller's \<open>SmallVectorImpl<int> &ShuffleMask\<close>.
  The embedding passes the container explicitly: each decoder takes the container as it is on
  entry and returns it as it is on return.

  C++ \<open>unsigned\<close> is a 32-bit word (arithmetic wraps), \<open>uint64_t\<close> a 64-bit word, and a mask
  entry is a C++ \<open>int\<close>, read here as a HOL \<open>int\<close>. Pushing an \<open>unsigned\<close> value converts it
  to \<open>int\<close>, which is \<open>sint\<close>.
\<close>

type_synonym u32 = "32 word"
type_synonym u64 = "64 word"

subsection \<open>Ways a call can end other than by returning\<close>

datatype error =
  DivisionByZero      \<comment> \<open>unsigned division by a zero divisor\<close>
| AssertionFailed     \<comment> \<open>a failed \<open>assert\<close>\<close>
| ShiftOutOfRange     \<comment> \<open>a 32-bit value shifted by 32 or more\<close>

subsection \<open>The external types\<close>

text \<open>
  Modelled from the spec: class \<open>MVT\<close> (llvm/CodeGen/MachineValueType.h) is not among the
  sources. The decoders only ask a vector type for its element count, the bit width of its
  element type and its total bit width; a vector type is a number of elements of one width,
  and its total width is their product.
\<close>

record MVT =
  VectorNumElements :: u32
  ElementSizeInBits :: u32

definition getVectorNumElements :: "MVT \<Rightarrow> u32" where
  "getVectorNumElements VT = VectorNumElements VT"

definition getElementSizeInBits :: "MVT \<Rightarrow> u32" where
  "getElementSizeInBits VT = ElementSizeInBits VT"

definition getSizeInBits :: "MVT \<Rightarrow> u32" where
  "getSizeInBits VT = VectorNumElements VT * ElementSizeInBits VT"

text \<open>
  Modelled from the spec: class \<open>ConstantDataSequential\<close> (llvm/IR/Constants.h) is not among
  the sources. Its type says whether it is a vector, how wide its elements are and how many
  elements the type declares; the constant itself holds a sequence of elements, each read
  back zero-extended to 64 bits.
\<close>

record ConstantDataSequential =
  TypeIsVector :: bool
  TypeElementBits :: nat
  TypeNumElements :: u32
  ElementData :: "nat list"

definition getNumElements :: "ConstantDataSequential \<Rightarrow> u32" where
  "getNumElements C = of_nat (length (ElementData C))"

definition getElementAsInteger :: "ConstantDataSequential \<Rightarrow> nat \<Rightarrow> u64" where
  "getElementAsInteger C i = of_nat ((ElementData C ! i) mod 2 ^ TypeElementBits C)"

subsection \<open>The three loop forms of the file\<close>

text \<open>\<open>for (unsigned i = b; i != e; ++i) body\<close>: it runs \<open>e - b\<close> times (modulo \<open>2^32\<close>).\<close>

function for_ne :: "u32 \<Rightarrow> u32 \<Rightarrow> (u32 \<Rightarrow> 's \<Rightarrow> 's) \<Rightarrow> 's \<Rightarrow> 's" where
  "for_ne i e body s = (if i = e then s else for_ne (i + 1) e body (body i s))"
  by pat_completeness auto
termination
proof (relation "measure (\<lambda>(i, e, body, s). unat (e - i))")
  show "wf (measure (\<lambda>(i, e, body, s). unat (e - i)))" by simp
next
  fix i e :: u32 and body :: "u32 \<Rightarrow> 's \<Rightarrow> 's" and s :: 's
  assume "i \<noteq> e"
  then have nz: "e - i \<noteq> 0" by simp
  have eq: "e - (i + 1) = (e - i) - 1" by simp
  have "unat (e - (i + 1)) = unat (e - i) - 1"
    unfolding eq by (rule unat_minus_one [OF nz])
  moreover have "unat (e - i) \<noteq> 0" using nz by (simp add: unat_eq_0)
  ultimately show "((i + 1, e, body, body i s), (i, e, body, s))
      \<in> measure (\<lambda>(i, e, body, s). unat (e - i))"
    by simp
qed

text \<open>
  \<open>for (unsigned l = b; l != e; l += step) body\<close>: the counter can step over \<open>e\<close> and the
  loop then never ends, which is the value \<open>None\<close>.
\<close>

partial_function (option) for_step ::
  "u32 \<Rightarrow> u32 \<Rightarrow> u32 \<Rightarrow> (u32 \<Rightarrow> 's \<Rightarrow> 's option) \<Rightarrow> 's \<Rightarrow> 's option" where
  "for_step l e step body s =
     (if l = e then Some s
      else Option.bind (body l s) (\<lambda>s'. for_step (l + step) e step body s'))"

declare for_step.simps [code]

text \<open>\<open>for (int i = b; i < e; ++i) body\<close>, with a body that can fail.\<close>

function for_lt :: "int \<Rightarrow> int \<Rightarrow> (int \<Rightarrow> 's \<Rightarrow> error + 's) \<Rightarrow> 's \<Rightarrow> error + 's" where
  "for_lt i e body s =
     (if i < e then (case body i s of Inl err \<Rightarrow> Inl err | Inr s' \<Rightarrow> for_lt (i + 1) e body s')
      else Inr s)"
  by pat_completeness auto
termination
  by (relation "measure (\<lambda>(i, e, body, s). nat (e - i))") auto

text \<open>\<open>ShuffleMask.push_back(x)\<close>\<close>

definition push_back :: "int list \<Rightarrow> int \<Rightarrow> int list" where
  "push_back ShuffleMask x = ShuffleMask @ [x]"

subsection \<open>The decoders\<close>

text \<open>
  The constant \<open>SM_SentinelZero\<close> is declared in X86ShuffleDecode.h, which is not among the
  sources; the decoders that use it take it as their first argument.
\<close>

definition DecodeINSERTPSMask :: "int \<Rightarrow> u32 \<Rightarrow> int list \<Rightarrow> int list" where
  "DecodeINSERTPSMask SM_SentinelZero Imm ShuffleMask0 =
    (let ShuffleMask = push_back ShuffleMask0 0;
         ShuffleMask = push_back ShuffleMask 1;
         ShuffleMask = push_back ShuffleMask 2;
         ShuffleMask = push_back ShuffleMask 3;
         ZMask = Imm AND 15;
         CountD = drop_bit 4 Imm AND 3;
         CountS = drop_bit 6 Imm AND 3;
         InVal = 4 + CountS;
         ShuffleMask = ShuffleMask[unat CountD := sint InVal];
         ShuffleMask = (if ZMask AND 1 \<noteq> 0 then ShuffleMask[0 := SM_SentinelZero] else ShuffleMask);
         ShuffleMask = (if ZMask AND 2 \<noteq> 0 then ShuffleMask[1 := SM_SentinelZero] else ShuffleMask);
         ShuffleMask = (if ZMask AND 4 \<noteq> 0 then ShuffleMask[2 := SM_SentinelZero] else ShuffleMask);
         ShuffleMask = (if ZMask AND 8 \<noteq> 0 then ShuffleMask[3 := SM_SentinelZero] else ShuffleMask)
     in ShuffleMask)"

text \<open>\<open><3,1>\<close> or \<open><6,7,2,3>\<close>\<close>

definition DecodeMOVHLPSMask :: "u32 \<Rightarrow> int list \<Rightarrow> int list" where
  "DecodeMOVHLPSMask NElts ShuffleMask =
    (let ShuffleMask = for_ne (NElts div 2) NElts (\<lambda>i ShuffleMask.
                         push_back ShuffleMask (sint (NElts + i))) ShuffleMask;
         ShuffleMask = for_ne (NElts div 2) NElts (\<lambda>i ShuffleMask.
                         push_back ShuffleMask (sint i)) ShuffleMask
     in ShuffleMask)"

text \<open>\<open><0,2>\<close> or \<open><0,1,4,5>\<close>\<close>

definition DecodeMOVLHPSMask :: "u32 \<Rightarrow> int list \<Rightarrow> int list" where
  "DecodeMOVLHPSMask NElts ShuffleMask =
    (let ShuffleMask = for_ne 0 (NElts div 2) (\<lambda>i ShuffleMask.
                         push_back ShuffleMask (sint i)) ShuffleMask;
         ShuffleMask = for_ne 0 (NElts div 2) (\<lambda>i ShuffleMask.
                         push_back ShuffleMask (sint (NElts + i))) ShuffleMask
     in ShuffleMask)"

text \<open>
  \<open>NumElts / NumLanes\<close> is an unsigned division: the call ends there when \<open>NumLanes\<close> is 0,
  that is, for a vector type narrower than 128 bits.
\<close>

definition DecodePALIGNRMask :: "MVT \<Rightarrow> u32 \<Rightarrow> int list \<Rightarrow> (error + int list) option" where
  "DecodePALIGNRMask VT Imm ShuffleMask =
    (let NumElts = getVectorNumElements VT;
         Offset = Imm * (getElementSizeInBits VT div 8);
         NumLanes = getSizeInBits VT div 128
     in if NumLanes = 0 then Some (Inl DivisionByZero)
        else
          let NumLaneElts = NumElts div NumLanes
          in map_option Inr
               (for_step 0 NumElts NumLaneElts (\<lambda>l ShuffleMask.
                  Some (for_ne 0 NumLaneElts (\<lambda>i ShuffleMask.
                    let Base = i + Offset;
                        Base = (if Base \<ge> NumLaneElts then Base + (NumElts - NumLaneElts) else Base)
                    in push_back ShuffleMask (sint (Base + l))) ShuffleMask)) ShuffleMask))"

text \<open>This decodes the shuffle masks for pshufd, and vpermilp*.\<close>

definition DecodePSHUFMask :: "MVT \<Rightarrow> u32 \<Rightarrow> int list \<Rightarrow> (error + int list) option" where
  "DecodePSHUFMask VT Imm ShuffleMask =
    (let NumElts = getVectorNumElements VT;
         NumLanes = getSizeInBits VT div 128
     in if NumLanes = 0 then Some (Inl DivisionByZero)
        else
          let NumLaneElts = NumElts div NumLanes;
              NewImm = Imm
          in map_option (Inr \<circ> snd)
               (for_step 0 NumElts NumLaneElts (\<lambda>l (NewImm, ShuffleMask).
                  let (NewImm, ShuffleMask) =
                        for_ne 0 NumLaneElts (\<lambda>i (NewImm, ShuffleMask).
                          (NewImm div NumLaneElts,
                           push_back ShuffleMask (sint (NewImm mod NumLaneElts + l))))
                          (NewImm, ShuffleMask)
                  in Some (if NumLaneElts = 4 then Imm else NewImm, ShuffleMask))
                (NewImm, ShuffleMask)))"

definition DecodePSHUFHWMask :: "MVT \<Rightarrow> u32 \<Rightarrow> int list \<Rightarrow> int list option" where
  "DecodePSHUFHWMask VT Imm ShuffleMask =
    (let NumElts = getVectorNumElements VT
     in for_step 0 NumElts 8 (\<lambda>l ShuffleMask.
          let NewImm = Imm;
              ShuffleMask = for_ne 0 4 (\<lambda>i ShuffleMask.
                              push_back ShuffleMask (sint (l + i))) ShuffleMask;
              (NewImm, ShuffleMask) =
                for_ne 4 8 (\<lambda>i (NewImm, ShuffleMask).
                  (drop_bit 2 NewImm, push_back ShuffleMask (sint (l + 4 + (NewImm AND 3)))))
                  (NewImm, ShuffleMask)
          in Some ShuffleMask) ShuffleMask)"

definition DecodePSHUFLWMask :: "MVT \<Rightarrow> u32 \<Rightarrow> int list \<Rightarrow> int list option" where
  "DecodePSHUFLWMask VT Imm ShuffleMask =
    (let NumElts = getVectorNumElements VT
     in for_step 0 NumElts 8 (\<lambda>l ShuffleMask.
          let NewImm = Imm;
              (NewImm, ShuffleMask) =
                for_ne 0 4 (\<lambda>i (NewImm, ShuffleMask).
                  (drop_bit 2 NewImm, push_back ShuffleMask (sint (l + (NewImm AND 3)))))
                  (NewImm, ShuffleMask);
              ShuffleMask = for_ne 4 8 (\<lambda>i ShuffleMask.
                              push_back ShuffleMask (sint (l + i))) ShuffleMask
          in Some ShuffleMask) ShuffleMask)"

text \<open>This decodes the shuffle masks for shufp*.\<close>

definition DecodeSHUFPMask :: "MVT \<Rightarrow> u32 \<Rightarrow> int list \<Rightarrow> (error + int list) option" where
  "DecodeSHUFPMask VT Imm ShuffleMask =
    (let NumElts = getVectorNumElements VT;
         NumLanes = getSizeInBits VT div 128
     in if NumLanes = 0 then Some (Inl DivisionByZero)
        else
          let NumLaneElts = NumElts div NumLanes;
              NewImm = Imm
          in map_option (Inr \<circ> snd)
               (for_step 0 NumElts NumLaneElts (\<lambda>l (NewImm, ShuffleMask).
                  Option.bind
                    (for_step 0 (NumElts * 2) NumElts (\<lambda>s (NewImm, ShuffleMask).
                       Some (for_ne 0 (NumLaneElts div 2) (\<lambda>i (NewImm, ShuffleMask).
                         (NewImm div NumLaneElts,
                          push_back ShuffleMask (sint (NewImm mod NumLaneElts + s + l))))
                         (NewImm, ShuffleMask)))
                     (NewImm, ShuffleMask))
                    (\<lambda>(NewImm, ShuffleMask).
                       Some (if NumLaneElts = 4 then Imm else NewImm, ShuffleMask)))
                (NewImm, ShuffleMask)))"

text \<open>
  This decodes the shuffle masks for unpckhps/unpckhpd and punpckh*. A vector type narrower
  than 128 bits (MMX) is one lane.
\<close>

definition DecodeUNPCKHMask :: "MVT \<Rightarrow> int list \<Rightarrow> int list option" where
  "DecodeUNPCKHMask VT ShuffleMask =
    (let NumElts = getVectorNumElements VT;
         NumLanes = getSizeInBits VT div 128;
         NumLanes = (if NumLanes = 0 then 1 else NumLanes);
         NumLaneElts = NumElts div NumLanes
     in for_step 0 NumElts NumLaneElts (\<lambda>l ShuffleMask.
          Some (for_ne (l + NumLaneElts div 2) (l + NumLaneElts) (\<lambda>i ShuffleMask.
            let ShuffleMask = push_back ShuffleMask (sint i);
                ShuffleMask = push_back ShuffleMask (sint (i + NumElts))
            in ShuffleMask) ShuffleMask)) ShuffleMask)"

text \<open>This decodes the shuffle masks for unpcklps/unpcklpd and punpckl*.\<close>

definition DecodeUNPCKLMask :: "MVT \<Rightarrow> int list \<Rightarrow> int list option" where
  "DecodeUNPCKLMask VT ShuffleMask =
    (let NumElts = getVectorNumElements VT;
         NumLanes = getSizeInBits VT div 128;
         NumLanes = (if NumLanes = 0 then 1 else NumLanes);
         NumLaneElts = NumElts div NumLanes
     in for_step 0 NumElts NumLaneElts (\<lambda>l ShuffleMask.
          Some (for_ne l (l + NumLaneElts div 2) (\<lambda>i ShuffleMask.
            let ShuffleMask = push_back ShuffleMask (sint i);
                ShuffleMask = push_back ShuffleMask (sint (i + NumElts))
            in ShuffleMask) ShuffleMask)) ShuffleMask)"

definition DecodeVPERM2X128Mask :: "MVT \<Rightarrow> u32 \<Rightarrow> int list \<Rightarrow> int list" where
  "DecodeVPERM2X128Mask VT Imm ShuffleMask =
    (if Imm AND 0x88 \<noteq> 0 then ShuffleMask
     else
       let HalfSize = getVectorNumElements VT div 2
       in for_ne 0 2 (\<lambda>l ShuffleMask.
            let HalfBegin = (drop_bit (unat (l * 4)) Imm AND 0x3) * HalfSize
            in for_ne HalfBegin (HalfBegin + HalfSize) (\<lambda>i ShuffleMask.
                 push_back ShuffleMask (sint i)) ShuffleMask) ShuffleMask)"

text \<open>
  The two overloads of \<open>DecodePSHUFBMask\<close>: \<open>_C\<close> reads the table from a constant, \<open>_RawMask\<close>
  from an array of 64-bit values. \<open>int Index = Base + Element\<close> adds in 64 bits and keeps the
  low 32 as an \<open>int\<close>.
\<close>

definition DecodePSHUFBMask_C :: "int \<Rightarrow> ConstantDataSequential \<Rightarrow> int list \<Rightarrow> error + int list" where
  "DecodePSHUFBMask_C SM_SentinelZero C ShuffleMask =
    (if \<not> TypeIsVector C then Inl AssertionFailed
     else if TypeElementBits C \<noteq> 8 then Inl AssertionFailed
     else
       let NumElements = sint (TypeNumElements C)
       in if \<not> (NumElements = 16 \<or> NumElements = 32) then Inl AssertionFailed
          else if (word_of_int NumElements :: u32) \<noteq> getNumElements C then Inl AssertionFailed
          else for_lt 0 NumElements (\<lambda>i ShuffleMask.
                 let Base = (if i < 16 then 0 else 16 :: int);
                     Element = getElementAsInteger C (nat i)
                 in if Element AND push_bit 7 1 \<noteq> 0
                    then Inr (push_back ShuffleMask SM_SentinelZero)
                    else
                      let Index = sint (ucast (word_of_int Base + Element) :: u32)
                      in if \<not> (Index \<ge> 0 \<and> Index < NumElements) then Inl AssertionFailed
                         else Inr (push_back ShuffleMask Index)) ShuffleMask)"

definition DecodePSHUFBMask_RawMask :: "int \<Rightarrow> u64 list \<Rightarrow> int list \<Rightarrow> error + int list" where
  "DecodePSHUFBMask_RawMask SM_SentinelZero RawMask ShuffleMask =
    (let e = sint (of_nat (length RawMask) :: u32)
     in for_lt 0 e (\<lambda>i ShuffleMask.
          let M = RawMask ! nat i;
              Base = (if i < 16 then 0 else 16 :: int)
          in if M AND push_bit 7 1 \<noteq> 0
             then Inr (push_back ShuffleMask SM_SentinelZero)
             else
               let Index = sint (ucast (word_of_int Base + M) :: u32)
               in if \<not> (Index \<ge> 0 \<and> unat (word_of_int Index :: u32) < length RawMask)
                  then Inl AssertionFailed
                  else Inr (push_back ShuffleMask Index)) ShuffleMask)"

text \<open>\<open>Imm >> i\<close> is defined only for \<open>i < 32\<close>.\<close>

definition DecodeBLENDMask :: "MVT \<Rightarrow> u32 \<Rightarrow> int list \<Rightarrow> error + int list" where
  "DecodeBLENDMask VT Imm ShuffleMask =
    (let NumElements = sint (getVectorNumElements VT)
     in for_lt 0 NumElements (\<lambda>i ShuffleMask.
          if i \<ge> 32 then Inl ShiftOutOfRange
          else Inr (push_back ShuffleMask
                 (if drop_bit (nat i) Imm AND 1 \<noteq> 0 then NumElements + i else i))) ShuffleMask)"

text \<open>
  This decodes the shuffle masks for VPERMQ/VPERMPD. No VT provided since it only works on
  256-bit, 4 element vectors.
\<close>

definition DecodeVPERMMask :: "u32 \<Rightarrow> int list \<Rightarrow> int list" where
  "DecodeVPERMMask Imm ShuffleMask =
    for_ne 0 4 (\<lambda>i ShuffleMask.
      push_back ShuffleMask (sint (drop_bit (unat (2 * i)) Imm AND 3))) ShuffleMask"

subsection \<open>Running a loop body a given number of times\<close>

text \<open>
  \<open>iter n f s\<close> runs \<open>f 0\<close>, \<open>f 1\<close>, ..., \<open>f (n - 1)\<close> on the state in this order. The loops
  above are related to it below; no decoder is defined with it.
\<close>

primrec iter :: "nat \<Rightarrow> (nat \<Rightarrow> 's \<Rightarrow> 's) \<Rightarrow> 's \<Rightarrow> 's" where
  "iter 0 f s = s"
| "iter (Suc n) f s = f n (iter n f s)"

subsection \<open>Vector types made of whole 128-bit lanes\<close>

text \<open>
  The 128-, 256- and 512-bit vector types of 8-, 16-, 32- or 64-bit elements: the element
  width is one of these four, the total width is a positive multiple of 128 and fits
  \<open>unsigned\<close>.
\<close>

definition lane_shape :: "MVT \<Rightarrow> bool" where
  "lane_shape VT \<longleftrightarrow>
     unat (ElementSizeInBits VT) \<in> {8, 16, 32, 64}
     \<and> 0 < unat (VectorNumElements VT)
     \<and> unat (VectorNumElements VT) * unat (ElementSizeInBits VT) < 2 ^ 32
     \<and> 128 dvd unat (VectorNumElements VT) * unat (ElementSizeInBits VT)"

subsection \<open>A container that only grew\<close>

text \<open>\<open>extends M0 M\<close>: the container \<open>M\<close> is \<open>M0\<close> with entries appended.\<close>

definition extends :: "int list \<Rightarrow> int list \<Rightarrow> bool" where
  "extends M0 M \<longleftrightarrow> (\<exists>New. M = M0 @ New)"

subsection \<open>The index range of a mask\<close>




section \<open>Properties of the loops\<close>

declare for_ne.simps [simp del] for_lt.simps [simp del]

lemma iter_front: "iter (Suc n) f s = iter n (\<lambda>k. f (Suc k)) (f 0 s)"
  by (induction n) simp_all

lemma iter_inv:
  assumes "P 0 s" and "\<And>k s. k < n \<Longrightarrow> P k s \<Longrightarrow> P (Suc k) (f k s)"
  shows "P n (iter n f s)"
  using assms(2)
proof (induction n)
  case 0
  show ?case using assms(1) by simp
next
  case (Suc n)
  then show ?case by simp
qed

lemma iter_cong: "(\<And>k s. k < n \<Longrightarrow> f k s = g k s) \<Longrightarrow> iter n f s = iter n g s"
  by (induction n) simp_all

lemma sint_unat: "unat (w :: u32) < 2 ^ 31 \<Longrightarrow> sint w = int (unat w)"
proof -
  assume a: "unat w < 2 ^ 31"
  have "int (unat w) < int (2 ^ 31)" using a by (simp only: of_nat_less_iff)
  then have hi: "uint w < 2 ^ (32 - 1)" by simp
  have lo: "- (2 ^ (32 - 1)) \<le> uint w"
    by (rule order_trans [of _ 0]) simp_all
  have "signed_take_bit (32 - 1) (uint w) = uint w"
    by (rule signed_take_bit_int_eq_self [OF lo hi])
  moreover have "LENGTH(32) - Suc 0 = 32 - 1" by simp
  ultimately have "sint w = uint w"
    by (simp only: sint_uint [of w])
  also have "uint w = int (unat w)" by simp
  finally show ?thesis .
qed

lemma for_ne_iter:
  "for_ne b e body s = iter (unat (e - b)) (\<lambda>k. body (b + of_nat k)) s"
proof (induction "unat (e - b)" arbitrary: b s)
  case 0
  then have "b = e" by (simp add: unat_eq_0)
  then show ?case by (subst for_ne.simps) simp
next
  case (Suc n)
  then have ne: "b \<noteq> e" by auto
  then have nz: "e - b \<noteq> 0" by simp
  have eq: "e - (b + 1) = (e - b) - 1" by simp
  have m: "unat (e - (b + 1)) = n"
    unfolding eq using unat_minus_one [OF nz] Suc(2) by simp
  have "for_ne b e body s = for_ne (b + 1) e body (body b s)"
    using ne by (subst for_ne.simps) simp
  also have "\<dots> = iter n (\<lambda>k. body (b + 1 + of_nat k)) (body b s)"
    using Suc(1) [OF m [symmetric]] m by simp
  also have "\<dots> = iter (Suc n) (\<lambda>k. body (b + of_nat k)) s"
    by (simp only: iter_front) (simp add: add.assoc)
  finally show ?case using Suc(2) by simp
qed

lemma for_ne_inv:
  assumes "P s" and "\<And>i s. P s \<Longrightarrow> P (body i s)"
  shows "P (for_ne b e body s)"
  unfolding for_ne_iter
  by (rule iter_inv [where P = "\<lambda>_. P"]) (use assms in auto)

lemma for_step_inv:
  assumes run: "for_step l e step body s = Some s'" and init: "P s"
    and pres: "\<And>l s s'. P s \<Longrightarrow> body l s = Some s' \<Longrightarrow> P s'"
  shows "P s'"
proof -
  have "body = body \<longrightarrow> P s \<longrightarrow> P s'"
  proof (rule for_step.raw_induct
      [where P = "\<lambda>l e step b s s'. b = body \<longrightarrow> P s \<longrightarrow> P s'", OF _ run])
    fix fs :: "u32 \<Rightarrow> u32 \<Rightarrow> u32 \<Rightarrow> (u32 \<Rightarrow> 'a \<Rightarrow> 'a option) \<Rightarrow> 'a \<Rightarrow> 'a option"
    fix l e step :: u32 and b :: "u32 \<Rightarrow> 'a \<Rightarrow> 'a option" and s la :: 'a
    assume IH: "\<And>e step body' s b y. fs e step body' s b = Some y \<Longrightarrow> s = body \<longrightarrow> P b \<longrightarrow> P y"
    assume eq: "(if l = e then Some s else Option.bind (b l s) (fs (l + step) e step b)) = Some la"
    show "b = body \<longrightarrow> P s \<longrightarrow> P la"
    proof (intro impI)
      assume bb: "b = body" and Ps: "P s"
      show "P la"
      proof (cases "l = e")
        case True
        then show ?thesis using eq Ps by simp
      next
        case False
        then obtain s1 where b1: "b l s = Some s1" and r: "fs (l + step) e step b s1 = Some la"
          using eq by (auto simp: bind_eq_Some_conv)
        have "P s1" using pres [OF Ps] b1 bb by simp
        then show ?thesis using IH [OF r] bb by simp
      qed
    qed
  qed
  then show ?thesis using init by simp
qed

lemma unat_of_nat_mult:
  fixes step :: u32
  assumes "k * unat step < 2 ^ 32" and "0 < unat step"
  shows "unat (of_nat k * step) = k * unat step"
proof -
  have "k * 1 \<le> k * unat step" by (rule mult_le_mono2) (use assms(2) in simp)
  then have "k \<le> k * unat step" by simp
  then have "k < 2 ^ 32" using assms(1) by (rule le_less_trans)
  then have k: "unat (of_nat k :: u32) = k" by (simp add: unat_of_nat)
  have "unat (of_nat k :: u32) * unat step < 2 ^ LENGTH(32)" using assms(1) k by simp
  then have "unat (of_nat k * step) = unat (of_nat k :: u32) * unat step"
    by (simp only: unat_mult_lem)
  then show ?thesis using k by simp
qed

lemma for_step_iter_aux:
  fixes step e :: u32
  assumes e: "unat e = n * unat step" and st: "0 < unat step"
    and body: "\<And>k s. k < n \<Longrightarrow> body (of_nat k * step) s = Some (f k s)"
  shows "j \<le> n \<Longrightarrow> for_step (of_nat j * step) e step body s = Some (iter (n - j) (\<lambda>k. f (j + k)) s)"
proof (induction "n - j" arbitrary: j s)
  case 0
  then have jn: "j = n" by simp
  have lt: "n * unat step < 2 ^ 32" using e [symmetric] unsigned_less [of e] by simp
  have "unat (of_nat n * step) = unat e"
    using unat_of_nat_mult [OF lt st] e by simp
  then have "of_nat n * step = e" by (simp only: word_unat_eq_iff)
  then show ?case using jn by (simp add: for_step.simps)
next
  case (Suc m)
  then have jn: "j < n" by simp
  have lt: "n * unat step < 2 ^ 32" using e [symmetric] unsigned_less [of e] by simp
  have js: "j * unat step < n * unat step" by (rule mult_less_mono1 [OF jn st])
  then have lj: "j * unat step < 2 ^ 32" using lt by (rule less_trans)
  have "j * unat step \<noteq> unat e" using js e by simp
  then have "unat (of_nat j * step) \<noteq> unat e"
    using unat_of_nat_mult [OF lj st] by simp
  then have ne: "of_nat j * step \<noteq> e" by auto
  have nxt: "of_nat j * step + step = of_nat (Suc j) * step" by (simp add: algebra_simps)
  have m: "m = n - Suc j" using Suc(2) by simp
  have "for_step (of_nat j * step) e step body s
      = for_step (of_nat (Suc j) * step) e step body (f j s)"
    using ne body [OF jn] nxt by (subst for_step.simps) simp
  also have "\<dots> = Some (iter m (\<lambda>k. f (Suc j + k)) (f j s))"
    using Suc(1) [OF m] jn m by simp
  also have "iter m (\<lambda>k. f (Suc j + k)) (f j s) = iter (Suc m) (\<lambda>k. f (j + k)) s"
    by (simp only: iter_front) simp
  finally show ?case using Suc(2) by simp
qed

lemma for_step_iter:
  fixes step e :: u32
  assumes e: "unat e = n * unat step" and st: "0 < unat step"
    and body: "\<And>k s. k < n \<Longrightarrow> body (of_nat k * step) s = Some (f k s)"
  shows "for_step 0 e step body s = Some (iter n f s)"
proof -
  have "for_step (of_nat 0 * step) e step body s = Some (iter (n - 0) (\<lambda>k. f (0 + k)) s)"
    by (rule for_step_iter_aux [where f = f, OF e st body]) simp_all
  then show ?thesis by simp
qed

lemma for_lt_inv:
  assumes run: "for_lt b e body s = Inr s'" and be: "b \<le> e" and init: "P b s"
    and step: "\<And>i s s'. b \<le> i \<Longrightarrow> i < e \<Longrightarrow> P i s \<Longrightarrow> body i s = Inr s' \<Longrightarrow> P (i + 1) s'"
  shows "P e s'"
proof -
  have "for_lt i e body s = Inr s' \<Longrightarrow> b \<le> i \<Longrightarrow> i \<le> e \<Longrightarrow> P i s \<Longrightarrow> P e s'" for i s
  proof (induction "nat (e - i)" arbitrary: i s)
    case 0
    then have ie: "i = e" by simp
    have "for_lt i e body s = Inr s" by (subst for_lt.simps) (simp add: ie)
    then show ?case using 0 ie by simp
  next
    case (Suc n)
    then have lt: "i < e" by simp
    have unf: "for_lt i e body s =
        (case body i s of Inl err \<Rightarrow> Inl err | Inr s1 \<Rightarrow> for_lt (i + 1) e body s1)"
      by (subst for_lt.simps) (simp add: lt)
    show ?case
    proof (cases "body i s")
      case (Inl err)
      then show ?thesis using unf Suc.prems(1) by simp
    next
      case (Inr s1)
      then have r: "for_lt (i + 1) e body s1 = Inr s'" using unf Suc.prems(1) by simp
      have p: "P (i + 1) s1" using step [OF Suc.prems(2) lt Suc.prems(4) Inr] .
      have n: "n = nat (e - (i + 1))" using Suc.hyps(2) by simp
      show ?thesis
        by (rule Suc.hyps(1) [OF n r _ _ p]) (use Suc.prems(2) lt in simp_all)
    qed
  qed
  then show ?thesis using run be init by blast
qed

section \<open>Bit fields of an immediate\<close>

lemma and3_cases: "(x :: u32) AND 3 = 0 \<or> x AND 3 = 1 \<or> x AND 3 = 2 \<or> x AND 3 = 3"
proof -
  have "x AND 3 \<le> 3" by (rule word_and_le1)
  then have "unat (x AND 3) \<le> unat (3 :: u32)" by (simp only: word_le_nat_alt)
  then have "unat (x AND 3) < 4" by simp
  then have "unat (x AND 3) = 0 \<or> unat (x AND 3) = 1 \<or> unat (x AND 3) = 2 \<or> unat (x AND 3) = 3"
    by arith
  then show ?thesis by (auto simp: word_unat_eq_iff)
qed

lemma and_pow2_test:
  "((z :: u32) AND 1 \<noteq> 0) = bit z 0" "(z AND 2 \<noteq> 0) = bit z 1"
  "(z AND 4 \<noteq> 0) = bit z 2" "(z AND 8 \<noteq> 0) = bit z 3"
  using and_exp_eq_0_iff_not_bit [of z 0] and_exp_eq_0_iff_not_bit [of z 1]
    and_exp_eq_0_iff_not_bit [of z 2] and_exp_eq_0_iff_not_bit [of z 3]
  by simp_all

section \<open>The insert decoder\<close>

lemma upt_4: "[0..<4] = [0, 1, 2, 3]"
  by (simp add: upt_rec)

lemma DecodeINSERTPSMask_empty:
  "DecodeINSERTPSMask SZ Imm [] =
     map (\<lambda>k. if bit (Imm AND 15) k then SZ
               else if k = unat (drop_bit 4 Imm AND 3) then 4 + int (unat (drop_bit 6 Imm AND 3))
               else int k) [0..<4]"
  using and3_cases [of "drop_bit 4 Imm"] and3_cases [of "drop_bit 6 Imm"]
  unfolding DecodeINSERTPSMask_def Let_def push_back_def and_pow2_test upt_4
  by (elim disjE) simp_all

text \<open>
  C3, as the code has it. Called on an empty container with the fields
  \<open>ZMask = Imm & 15\<close>, \<open>CountD = (Imm >> 4) & 3\<close> and \<open>CountS = (Imm >> 6) & 3\<close>, the insert
  decoder leaves four entries: entry \<open>k\<close> is the zero sentinel when bit \<open>k\<close> of \<open>ZMask\<close> is set,
  else \<open>4 + CountS\<close> when \<open>k = CountD\<close>, else \<open>k\<close>. So \<open>Imm = 0\<close> gives \<open>[4, 1, 2, 3]\<close> (entry 0
  is the insert of source element 0, not the identity), \<open>ZMask = 15\<close> gives four sentinels
  whatever the other fields are, and a \<open>ZMask\<close> bit at position \<open>CountD\<close> makes that entry the
  sentinel.
\<close>

theorem DecodeINSERTPSMask_fields:
  "DecodeINSERTPSMask SZ Imm [] =
     map (\<lambda>k. if bit (Imm AND 15) k then SZ
               else if k = unat (drop_bit 4 Imm AND 3) then 4 + int (unat (drop_bit 6 Imm AND 3))
               else int k) [0..<4]
   \<and> DecodeINSERTPSMask SZ 0 [] = [4, 1, 2, 3]
   \<and> (Imm AND 15 = 15 \<longrightarrow> DecodeINSERTPSMask SZ Imm [] = [SZ, SZ, SZ, SZ])
   \<and> (bit (Imm AND 15) (unat (drop_bit 4 Imm AND 3)) \<longrightarrow>
        DecodeINSERTPSMask SZ Imm [] ! unat (drop_bit 4 Imm AND 3) = SZ)"
proof (intro conjI impI)
  show "DecodeINSERTPSMask SZ Imm [] =
     map (\<lambda>k. if bit (Imm AND 15) k then SZ
               else if k = unat (drop_bit 4 Imm AND 3) then 4 + int (unat (drop_bit 6 Imm AND 3))
               else int k) [0..<4]"
    by (rule DecodeINSERTPSMask_empty)
  show "DecodeINSERTPSMask SZ 0 [] = [4, 1, 2, 3]"
    by (simp add: DecodeINSERTPSMask_empty upt_4)
next
  assume "Imm AND 15 = 15"
  then show "DecodeINSERTPSMask SZ Imm [] = [SZ, SZ, SZ, SZ]"
    by (simp add: DecodeINSERTPSMask_empty upt_4)
next
  assume b: "bit (Imm AND 15) (unat (drop_bit 4 Imm AND 3))"
  have "unat (drop_bit 4 Imm AND 3) < 4"
    using and3_cases [of "drop_bit 4 Imm"] by auto
  then show "DecodeINSERTPSMask SZ Imm [] ! unat (drop_bit 4 Imm AND 3) = SZ"
    using b by (simp add: DecodeINSERTPSMask_empty)
qed

theorem DecodeINSERTPSMask_fields_witness:
  "(0x1F :: u32) AND 15 = 15
   \<and> bit ((0x1F :: u32) AND 15) (unat (drop_bit 4 (0x1F :: u32) AND 3))
   \<and> DecodeINSERTPSMask (- 1) 0x1F [] = [- 1, - 1, - 1, - 1]
   \<and> DecodeINSERTPSMask (- 1) 0x1F [] ! unat (drop_bit 4 (0x1F :: u32) AND 3) = - 1"
  using DecodeINSERTPSMask_fields [of "- 1" "0x1F", THEN conjunct2, THEN conjunct2] by simp

theorem DecodeINSERTPSMask_zero_imm_counterexample:
  "DecodeINSERTPSMask (- 1) 0 [] \<noteq> [0, 1, 2, 3]"
  by (simp add: DecodeINSERTPSMask_def push_back_def)

section \<open>The cross-lane 128-bit permute decoder\<close>

text \<open>
  C7, as the code has it. On the shape of 8 elements of 32 bits and the immediate \<open>0x20\<close>
  the decoder gives \<open>[0, 1, 2, 3, 8, 9, 10, 11]\<close>: the field at bits 0-1 is 0 and fills the
  low half from source range 0-3, the field at bits 4-5 is 2 and fills the high half from
  source range 8-11; destination half \<open>l\<close> is filled from \<open>HalfSize\<close> times the 2-bit field at
  bits \<open>4l\<close>, \<open>4l + 1\<close>.
\<close>

theorem DecodeVPERM2X128Mask_0x20:
  "DecodeVPERM2X128Mask \<lparr>VectorNumElements = 8, ElementSizeInBits = 32\<rparr> 0x20 []
     = [0, 1, 2, 3, 8, 9, 10, 11]
   \<and> [0, 1, 2, 3, 8, 9, 10, 11]
     = map (\<lambda>p. int (unat (drop_bit (4 * (p div 4)) (0x20 :: u32) AND 3) * 4 + p mod 4))
         [0, 1, 2, 3, 4, 5, 6, 7]"
  by (simp add: DecodeVPERM2X128Mask_def getVectorNumElements_def push_back_def for_ne.simps)

theorem DecodeVPERM2X128Mask_0x20_counterexample:
  "DecodeVPERM2X128Mask \<lparr>VectorNumElements = 8, ElementSizeInBits = 32\<rparr> 0x20 []
     \<noteq> [4, 5, 6, 7, 0, 1, 2, 3]"
  by (simp add: DecodeVPERM2X128Mask_def getVectorNumElements_def push_back_def for_ne.simps)

section \<open>Loops that only push\<close>

lemma iter_push: "iter n (\<lambda>k M. push_back M (g k)) M = M @ map g [0..<n]"
  by (induction n) (simp_all add: push_back_def)


lemma for_ne_push:
  "for_ne b e (\<lambda>i M. push_back M (g i)) M = M @ map (\<lambda>k. g (b + of_nat k)) [0..<unat (e - b)]"
  unfolding for_ne_iter by (rule iter_push)

lemma for_ne_0_2: "for_ne 0 2 body s = body 1 (body 0 s)"
  by (simp add: for_ne.simps)

lemma DecodeVPERM2X128Mask_shuffle:
  assumes "Imm AND 0x88 = 0"
  shows "DecodeVPERM2X128Mask VT Imm M =
    M @ map (\<lambda>k. sint ((Imm AND 3) * (getVectorNumElements VT div 2) + of_nat k))
          [0..<unat (getVectorNumElements VT div 2)]
      @ map (\<lambda>k. sint ((drop_bit 4 Imm AND 3) * (getVectorNumElements VT div 2) + of_nat k))
          [0..<unat (getVectorNumElements VT div 2)]"
  unfolding DecodeVPERM2X128Mask_def Let_def for_ne_push for_ne_0_2
  using assms by simp

lemma imm_0x88: "((Imm :: u32) AND 0x88 \<noteq> 0) = (bit Imm 3 \<or> bit Imm 7)"
proof -
  have "(0x88 :: u32) = 2 ^ 3 OR 2 ^ 7" by simp
  then have "Imm AND 0x88 = (Imm AND 2 ^ 3) OR (Imm AND 2 ^ 7)"
    by (simp only: bit.conj_disj_distrib)
  then show ?thesis
    by (simp only: or_eq_0_iff and_exp_eq_0_iff_not_bit) simp
qed

text \<open>
  C2. On a vector type with an even number of elements, at least two (two halves), the
  cross-lane 128-bit permute decoder leaves an empty container empty exactly when
  \<open>Imm & 0x88\<close> is nonzero, that is, when bit 3 or bit 7 of the immediate is set. For every
  other immediate the mask has as many entries as the vector has elements, and entry \<open>p\<close>,
  in half \<open>l = p div HalfSize\<close>, is the source index \<open>f * HalfSize + p mod HalfSize\<close> for the
  2-bit field \<open>f\<close> at bits \<open>4l\<close>, \<open>4l + 1\<close>.
\<close>

theorem DecodeVPERM2X128Mask_empty_iff:
  assumes two: "2 \<le> unat (getVectorNumElements VT)"
    and ev: "even (unat (getVectorNumElements VT))"
  shows "(DecodeVPERM2X128Mask VT Imm [] = [] \<longleftrightarrow> Imm AND 0x88 \<noteq> 0)
     \<and> (Imm AND 0x88 \<noteq> 0 \<longleftrightarrow> bit Imm 3 \<or> bit Imm 7)
     \<and> (Imm AND 0x88 = 0 \<longrightarrow>
          length (DecodeVPERM2X128Mask VT Imm []) = unat (getVectorNumElements VT)
          \<and> (\<forall>p < unat (getVectorNumElements VT).
                DecodeVPERM2X128Mask VT Imm [] ! p =
                  sint ((drop_bit (4 * (p div unat (getVectorNumElements VT div 2))) Imm AND 3)
                          * (getVectorNumElements VT div 2)
                        + of_nat (p mod unat (getVectorNumElements VT div 2)))))"
proof -
  define h where "h = unat (getVectorNumElements VT div 2)"
  have h: "h = unat (getVectorNumElements VT) div 2" by (simp add: h_def unat_div)
  have hpos: "0 < h" using two h by simp
  have n: "unat (getVectorNumElements VT) = 2 * h" using ev h by auto
  have ne: "Imm AND 0x88 = 0 \<Longrightarrow> DecodeVPERM2X128Mask VT Imm [] \<noteq> []"
    using hpos by (simp add: DecodeVPERM2X128Mask_shuffle h_def [symmetric])
  have e: "Imm AND 0x88 \<noteq> 0 \<Longrightarrow> DecodeVPERM2X128Mask VT Imm [] = []"
    by (simp add: DecodeVPERM2X128Mask_def)
  have len: "Imm AND 0x88 = 0 \<Longrightarrow> length (DecodeVPERM2X128Mask VT Imm []) = 2 * h"
    by (simp add: DecodeVPERM2X128Mask_shuffle h_def [symmetric])
  have nth: "DecodeVPERM2X128Mask VT Imm [] ! p =
        sint ((drop_bit (4 * (p div h)) Imm AND 3) * (getVectorNumElements VT div 2)
              + of_nat (p mod h))"
    if z: "Imm AND 0x88 = 0" and p: "p < 2 * h" for p
  proof (cases "p < h")
    case True
    then show ?thesis
      by (simp add: DecodeVPERM2X128Mask_shuffle [OF z] h_def [symmetric] nth_append)
  next
    case False
    then have d: "p div h = 1" and m: "p mod h = p - h" using p hpos
      by (simp_all add: div_nat_eqI mod_if)
    have "p - h < h" using False p by simp
    then show ?thesis using False d m
      by (simp add: DecodeVPERM2X128Mask_shuffle [OF z] h_def [symmetric] nth_append)
  qed
  show ?thesis
    using ne e len nth imm_0x88 [of Imm] unfolding n h_def [symmetric] by blast
qed

theorem DecodeVPERM2X128Mask_empty_iff_witness:
  "2 \<le> unat (getVectorNumElements \<lparr>VectorNumElements = 8, ElementSizeInBits = 32\<rparr>)
   \<and> even (unat (getVectorNumElements \<lparr>VectorNumElements = 8, ElementSizeInBits = 32\<rparr>))
   \<and> (0x20 :: u32) AND 0x88 = 0
   \<and> length (DecodeVPERM2X128Mask \<lparr>VectorNumElements = 8, ElementSizeInBits = 32\<rparr> 0x20 []) = 8
   \<and> DecodeVPERM2X128Mask \<lparr>VectorNumElements = 8, ElementSizeInBits = 32\<rparr> 0x20 [] ! 5 = 9"
proof -
  have a: "2 \<le> unat (getVectorNumElements \<lparr>VectorNumElements = 8, ElementSizeInBits = 32\<rparr>)"
    and b: "even (unat (getVectorNumElements \<lparr>VectorNumElements = 8, ElementSizeInBits = 32\<rparr>))"
    by (simp_all add: getVectorNumElements_def)
  show ?thesis
    using DecodeVPERM2X128Mask_empty_iff [OF a b, of "0x20"]
    by (simp add: getVectorNumElements_def)
qed

section \<open>The byte-table decoders\<close>

lemma bit7_test: "((x :: u64) AND push_bit 7 1 \<noteq> 0) = bit x 7"
  using and_exp_eq_0_iff_not_bit [of x 7] by simp

lemma byte_low7:
  assumes "unat (x :: u64) < 256" and "\<not> bit x 7"
  shows "unat x < 128" and "x AND 0x7F = x"
proof -
  have nb: "\<not> bit (unat x) 7" using assms(2) by (simp add: bit_unsigned_iff)
  have "take_bit 8 (unat x) = unat x" using assms(1) by (simp add: take_bit_nat_eq_self)
  moreover have "take_bit (Suc 7) (unat x) = 2 ^ 7 * of_bool (bit (unat x) 7) + take_bit 7 (unat x)"
    by (rule take_bit_Suc_from_most)
  ultimately have t7: "take_bit 7 (unat x) = unat x" using nb by simp
  have "take_bit 7 (unat x) < 2 ^ 7" by (rule take_bit_nat_less_exp)
  then show "unat x < 128" using t7 by simp
  have "unat (take_bit 7 x) = unat x" using t7 by (simp add: unsigned_take_bit_eq)
  then have "take_bit 7 x = x" by (simp only: word_unat_eq_iff)
  moreover have "(0x7F :: u64) = mask 7" by (simp add: mask_eq_exp_minus_1)
  ultimately show "x AND 0x7F = x" by (simp add: take_bit_eq_mask)
qed

lemma unat_16_plus:
  assumes "unat (x :: u64) < 128"
  shows "unat (16 + x) = 16 + unat x"
proof -
  have "unat (16 :: u64) + unat x < 2 ^ LENGTH(64)" using assms by simp
  then have "unat (16 + x) = unat (16 :: u64) + unat x" by (simp only: unat_add_lem)
  then show ?thesis by simp
qed

lemma pshufb_index:
  assumes "unat (x :: u64) < 128" and "Base = 0 \<or> Base = (16 :: int)"
  shows "sint (ucast (word_of_int Base + x) :: u32) = Base + int (unat x)"
proof -
  have s: "unat (word_of_int Base + x) = nat Base + unat x"
    using assms(2) unat_16_plus [OF assms(1)] by auto
  have lt: "nat Base + unat x < 144" using assms by auto
  have "unat (ucast (word_of_int Base + x) :: u32) = nat Base + unat x"
    using s lt by (simp add: unsigned_ucast_eq take_bit_nat_eq_self)
  then show ?thesis using lt assms(2) by (auto simp: sint_unat)
qed

lemma pshufb_loop:
  assumes run: "for_lt 0 N body M0 = Inr M" and N0: "0 \<le> N"
    and body: "\<And>i M'. 0 \<le> i \<Longrightarrow> i < N \<Longrightarrow>
       body i M' = (if bit (tab (nat i) :: u64) 7 then Inr (push_back M' SZ)
                    else if ok (idx i) then Inr (push_back M' (idx i))
                    else Inl AssertionFailed)"
  shows "length M = length M0 + nat N \<and> take (length M0) M = M0
     \<and> (\<forall>k < nat N. M ! (length M0 + k) = (if bit (tab k) 7 then SZ else idx (int k))
            \<and> (\<not> bit (tab k) 7 \<longrightarrow> ok (idx (int k))))"
proof -
  let ?P = "\<lambda>i M'. length M' = length M0 + nat i \<and> take (length M0) M' = M0
     \<and> (\<forall>k < nat i. M' ! (length M0 + k) = (if bit (tab k) 7 then SZ else idx (int k))
            \<and> (\<not> bit (tab k) 7 \<longrightarrow> ok (idx (int k))))"
  have "?P N M"
  proof (rule for_lt_inv [where P = ?P, OF run N0])
    show "?P 0 M0" by simp
  next
    fix i M1 M2
    assume i0: "0 \<le> i" and iN: "i < N" and P: "?P i M1" and b: "body i M1 = Inr M2"
    have ni: "nat (i + 1) = Suc (nat i)" using i0 by simp
    have ii: "int (nat i) = i" using i0 by simp
    consider (z) "bit (tab (nat i)) 7" "M2 = M1 @ [SZ]"
      | (x) "\<not> bit (tab (nat i)) 7" "ok (idx i)" "M2 = M1 @ [idx i]"
      using b body [OF i0 iN, of M1] by (auto simp: push_back_def split: if_splits)
    then show "?P (i + 1) M2"
    proof cases
      case z
      then show ?thesis using P ii unfolding ni
        by (auto simp: nth_append less_Suc_eq)
    next
      case x
      then show ?thesis using P ii unfolding ni
        by (auto simp: nth_append less_Suc_eq)
    qed
  qed
  then show ?thesis .
qed

lemma sint_of_nat_u32: "n < 2 ^ 31 \<Longrightarrow> sint (of_nat n :: u32) = int n"
proof -
  assume a: "n < 2 ^ 31"
  then have "n < 2 ^ 32" by simp
  then have "unat (of_nat n :: u32) = n" by (simp add: unat_of_nat)
  then show ?thesis using a sint_unat [of "of_nat n"] by simp
qed

lemma bit7_test': "((x :: u64) AND 128 \<noteq> 0) = bit x 7"
  using and_exp_eq_0_iff_not_bit [of x 7] by simp

lemma unat_word_of_int_small: "0 \<le> x \<Longrightarrow> x < 2 ^ 32 \<Longrightarrow> unat (word_of_int x :: u32) = nat x"
proof -
  assume a: "0 \<le> x" "x < 2 ^ 32"
  have "uint (word_of_int x :: u32) = take_bit 32 x" by (simp add: uint_word_of_int_eq)
  also have "\<dots> = x" using a by (simp add: take_bit_int_eq_self)
  finally have "nat (uint (word_of_int x :: u32)) = nat x" by simp
  then show ?thesis by (simp only: unat_eq_nat_uint)
qed

lemma PSHUFB_RawMask_entries:
  assumes run: "DecodePSHUFBMask_RawMask SZ RawMask M0 = Inr M"
    and len: "length RawMask < 2 ^ 31"
    and bytes: "\<forall>x \<in> set RawMask. unat x < 256"
  shows "length M = length M0 + length RawMask \<and> take (length M0) M = M0
     \<and> (\<forall>k < length RawMask.
           M ! (length M0 + k) =
             (if bit (RawMask ! k) 7 then SZ
              else int (unat (RawMask ! k AND 0x7F)) + (if k < 16 then 0 else 16))
           \<and> (\<not> bit (RawMask ! k) 7 \<longrightarrow> M ! (length M0 + k) < int (length RawMask)))"
proof -
  define idx where "idx i = sint (ucast (word_of_int (if i < 16 then 0 else 16) + RawMask ! nat i) :: u32)"
    for i :: int
  define ok where "ok x \<longleftrightarrow> x \<ge> 0 \<and> unat (word_of_int x :: u32) < length RawMask" for x :: int
  have e: "sint (of_nat (length RawMask) :: u32) = int (length RawMask)"
    by (rule sint_of_nat_u32 [OF len])
  have run': "for_lt 0 (int (length RawMask))
      (\<lambda>i ShuffleMask.
          let M = RawMask ! nat i;
              Base = (if i < 16 then 0 else 16 :: int)
          in if M AND push_bit 7 1 \<noteq> 0
             then Inr (push_back ShuffleMask SZ)
             else
               let Index = sint (ucast (word_of_int Base + M) :: u32)
               in if \<not> (Index \<ge> 0 \<and> unat (word_of_int Index :: u32) < length RawMask)
                  then Inl AssertionFailed
                  else Inr (push_back ShuffleMask Index)) M0 = Inr M"
    using run unfolding DecodePSHUFBMask_RawMask_def Let_def e .
  have L: "length M = length M0 + nat (int (length RawMask)) \<and> take (length M0) M = M0
     \<and> (\<forall>k < nat (int (length RawMask)).
            M ! (length M0 + k) = (if bit (RawMask ! k) 7 then SZ else idx (int k))
            \<and> (\<not> bit (RawMask ! k) 7 \<longrightarrow> ok (idx (int k))))"
    by (rule pshufb_loop [OF run', where tab = "\<lambda>k. RawMask ! k"])
       (simp_all add: Let_def bit7_test' idx_def ok_def)
  have ix: "idx (int k) = int (unat (RawMask ! k AND 0x7F)) + (if k < 16 then 0 else 16)
      \<and> (ok (idx (int k)) \<longrightarrow> idx (int k) < int (length RawMask))"
    if k: "k < length RawMask" and nb: "\<not> bit (RawMask ! k) 7" for k
  proof -
    have b: "unat (RawMask ! k) < 256" using bytes k by simp
    note l7 = byte_low7 [OF b nb]
    have i: "idx (int k) = (if int k < 16 then 0 else 16) + int (unat (RawMask ! k))"
      unfolding idx_def using pshufb_index [OF l7(1), of "if int k < 16 then 0 else 16"] by simp
    have u: "int (unat (RawMask ! k)) < 128" using l7(1) by linarith
    have "0 \<le> idx (int k)" "idx (int k) < 2 ^ 32" using i u by (auto split: if_splits)
    then have "unat (word_of_int (idx (int k)) :: u32) = nat (idx (int k))"
      by (rule unat_word_of_int_small)
    then have "ok (idx (int k)) \<longrightarrow> idx (int k) < int (length RawMask)"
      unfolding ok_def by auto
    then show ?thesis using i l7(2) by (auto split: if_splits)
  qed
  have ents: "M ! (length M0 + k) =
             (if bit (RawMask ! k) 7 then SZ
              else int (unat (RawMask ! k AND 0x7F)) + (if k < 16 then 0 else 16))
           \<and> (\<not> bit (RawMask ! k) 7 \<longrightarrow> M ! (length M0 + k) < int (length RawMask))"
    if k: "k < length RawMask" for k
  proof (cases "bit (RawMask ! k) 7")
    case True
    then show ?thesis using L k by simp
  next
    case False
    have m: "M ! (length M0 + k) = idx (int k)" and o: "ok (idx (int k))"
      using L k False by simp_all
    show ?thesis using ix [OF k False] o False unfolding m by simp
  qed
  have lm: "length M = length M0 + length RawMask" and tk: "take (length M0) M = M0"
    using L by simp_all
  show ?thesis using lm tk ents by blast
qed

lemma PSHUFB_C_entries:
  assumes run: "DecodePSHUFBMask_C SZ C M0 = Inr M"
  shows "(sint (TypeNumElements C) = 16 \<or> sint (TypeNumElements C) = 32)
     \<and> length M = length M0 + nat (sint (TypeNumElements C)) \<and> take (length M0) M = M0
     \<and> (\<forall>k < nat (sint (TypeNumElements C)).
           M ! (length M0 + k) =
             (if bit (getElementAsInteger C k) 7 then SZ
              else int (unat (getElementAsInteger C k AND 0x7F)) + (if k < 16 then 0 else 16))
           \<and> (\<not> bit (getElementAsInteger C k) 7 \<longrightarrow>
                M ! (length M0 + k) < sint (TypeNumElements C)))"
proof -
  define N where "N = sint (TypeNumElements C)"
  define idx where "idx i = sint (ucast (word_of_int (if i < 16 then 0 else 16) + getElementAsInteger C (nat i)) :: u32)"
    for i :: int
  define ok where "ok x \<longleftrightarrow> x \<ge> 0 \<and> x < N" for x :: int
  have bits: "TypeElementBits C = 8" and N: "N = 16 \<or> N = 32"
    using run unfolding DecodePSHUFBMask_C_def Let_def N_def by (auto split: if_splits)
  have run': "for_lt 0 N (\<lambda>i ShuffleMask.
                 let Base = (if i < 16 then 0 else 16 :: int);
                     Element = getElementAsInteger C (nat i)
                 in if Element AND push_bit 7 1 \<noteq> 0
                    then Inr (push_back ShuffleMask SZ)
                    else
                      let Index = sint (ucast (word_of_int Base + Element) :: u32)
                      in if \<not> (Index \<ge> 0 \<and> Index < N) then Inl AssertionFailed
                         else Inr (push_back ShuffleMask Index)) M0 = Inr M"
    using run unfolding DecodePSHUFBMask_C_def Let_def N_def by (auto split: if_splits)
  have N0: "0 \<le> N" using N by auto
  have L: "length M = length M0 + nat N \<and> take (length M0) M = M0
     \<and> (\<forall>k < nat N.
            M ! (length M0 + k) = (if bit (getElementAsInteger C k) 7 then SZ else idx (int k))
            \<and> (\<not> bit (getElementAsInteger C k) 7 \<longrightarrow> ok (idx (int k))))"
    by (rule pshufb_loop [OF run' N0, where tab = "\<lambda>k. getElementAsInteger C k"])
       (simp_all add: Let_def bit7_test' idx_def ok_def)
  have byte: "unat (getElementAsInteger C k) < 256" for k
  proof -
    have "ElementData C ! k mod 2 ^ 8 < 2 ^ 64"
      by (rule less_trans [of _ "2 ^ 8"]) simp_all
    then have "unat (of_nat (ElementData C ! k mod 2 ^ 8) :: u64) = ElementData C ! k mod 2 ^ 8"
      by (simp only: unat_of_nat) simp
    then show ?thesis unfolding getElementAsInteger_def bits by simp
  qed
  have ents: "M ! (length M0 + k) =
             (if bit (getElementAsInteger C k) 7 then SZ
              else int (unat (getElementAsInteger C k AND 0x7F)) + (if k < 16 then 0 else 16))
           \<and> (\<not> bit (getElementAsInteger C k) 7 \<longrightarrow> M ! (length M0 + k) < N)"
    if k: "k < nat N" for k
  proof (cases "bit (getElementAsInteger C k) 7")
    case True
    then show ?thesis using L k by simp
  next
    case False
    have m: "M ! (length M0 + k) = idx (int k)" and o: "ok (idx (int k))"
      using L k False by simp_all
    note l7 = byte_low7 [OF byte False]
    have i: "idx (int k) = (if int k < 16 then 0 else 16) + int (unat (getElementAsInteger C k))"
      unfolding idx_def using pshufb_index [OF l7(1), of "if int k < 16 then 0 else 16"] by simp
    have "idx (int k) = int (unat (getElementAsInteger C k AND 0x7F)) + (if k < 16 then 0 else 16)"
      unfolding i l7(2) by simp
    then show ?thesis using o False unfolding m ok_def by simp
  qed
  have lm: "length M = length M0 + nat N" and tk: "take (length M0) M = M0"
    using L by simp_all
  show ?thesis using lm tk ents N unfolding N_def by blast
qed

lemma PSHUFB_RawMask_run:
  "DecodePSHUFBMask_RawMask (- 1) (0x85 # replicate 31 5) []
     = Inr (- 1 # replicate 15 5 @ replicate 16 21)"
  by code_simp

lemma PSHUFB_C_run:
  "DecodePSHUFBMask_C (- 1)
     \<lparr>TypeIsVector = True, TypeElementBits = 8, TypeNumElements = 32,
      ElementData = 0x85 # replicate 31 5\<rparr> []
     = Inr (- 1 # replicate 15 5 @ replicate 16 21)"
  by code_simp

text \<open>
  What the assert of the byte-table decoders bounds on a 32-entry table: an index pushed for
  a position \<open>i \<ge> 16\<close> lies in \<open>[16, 32)\<close>, one pushed for a position \<open>i < 16\<close> in \<open>[0, 32)\<close>.
\<close>

lemma PSHUFB_half_bounds:
  "(DecodePSHUFBMask_C SZ C M0 = Inr M \<longrightarrow> sint (TypeNumElements C) = 32 \<longrightarrow>
      (\<forall>i < 32. M ! (length M0 + i) \<noteq> SZ \<longrightarrow>
         (i < 16 \<longrightarrow> 0 \<le> M ! (length M0 + i) \<and> M ! (length M0 + i) < 32)
       \<and> (16 \<le> i \<longrightarrow> 16 \<le> M ! (length M0 + i) \<and> M ! (length M0 + i) < 32)))
   \<and> (DecodePSHUFBMask_RawMask SZ RawMask M0 = Inr M' \<longrightarrow>
      length RawMask = 32 \<longrightarrow> (\<forall>x \<in> set RawMask. unat x < 256) \<longrightarrow>
      (\<forall>i < 32. M' ! (length M0 + i) \<noteq> SZ \<longrightarrow>
         (i < 16 \<longrightarrow> 0 \<le> M' ! (length M0 + i) \<and> M' ! (length M0 + i) < 32)
       \<and> (16 \<le> i \<longrightarrow> 16 \<le> M' ! (length M0 + i) \<and> M' ! (length M0 + i) < 32)))"
proof -
  have n32: "nat 32 = (32 :: nat)" by simp
  have C: "(i < 16 \<longrightarrow> 0 \<le> M ! (length M0 + i) \<and> M ! (length M0 + i) < 32)
       \<and> (16 \<le> i \<longrightarrow> 16 \<le> M ! (length M0 + i) \<and> M ! (length M0 + i) < 32)"
    if run: "DecodePSHUFBMask_C SZ C M0 = Inr M" and n: "sint (TypeNumElements C) = 32"
      and i: "i < 32" and ns: "M ! (length M0 + i) \<noteq> SZ" for i
  proof -
    note E = PSHUFB_C_entries [OF run, unfolded n n32, THEN conjunct2, THEN conjunct2,
        THEN conjunct2, rule_format, OF i]
    note E1 = E [THEN conjunct1] and E2 = E [THEN conjunct2, rule_format]
    have nb: "\<not> bit (getElementAsInteger C i) 7"
    proof
      assume "bit (getElementAsInteger C i) 7"
      then have "M ! (length M0 + i) = SZ" by (simp only: E1 if_True)
      then show False using ns by simp
    qed
    have lt: "M ! (length M0 + i) < 32" by (rule E2 [OF nb])
    have eq: "M ! (length M0 + i) =
        int (unat (getElementAsInteger C i AND 0x7F)) + (if i < 16 then 0 else 16)"
      using nb by (simp only: E1 if_False)
    have "0 \<le> M ! (length M0 + i)" unfolding eq by simp
    moreover have "16 \<le> i \<Longrightarrow> 16 \<le> M ! (length M0 + i)" unfolding eq by simp
    ultimately show ?thesis using lt by blast
  qed
  have R: "(i < 16 \<longrightarrow> 0 \<le> M' ! (length M0 + i) \<and> M' ! (length M0 + i) < 32)
       \<and> (16 \<le> i \<longrightarrow> 16 \<le> M' ! (length M0 + i) \<and> M' ! (length M0 + i) < 32)"
    if run: "DecodePSHUFBMask_RawMask SZ RawMask M0 = Inr M'" and n: "length RawMask = 32"
      and bytes: "\<forall>x \<in> set RawMask. unat x < 256"
      and i: "i < 32" and ns: "M' ! (length M0 + i) \<noteq> SZ" for i
  proof -
    have len: "length RawMask < 2 ^ 31" using n by simp
    note E = PSHUFB_RawMask_entries [OF run len bytes, unfolded n, THEN conjunct2,
        THEN conjunct2, rule_format, OF i]
    note E1 = E [THEN conjunct1] and E2 = E [THEN conjunct2, rule_format]
    have nb: "\<not> bit (RawMask ! i) 7"
    proof
      assume "bit (RawMask ! i) 7"
      then have "M' ! (length M0 + i) = SZ" by (simp only: E1 if_True)
      then show False using ns by simp
    qed
    have lt: "M' ! (length M0 + i) < 32" using E2 [OF nb] by simp
    have eq: "M' ! (length M0 + i) =
        int (unat (RawMask ! i AND 0x7F)) + (if i < 16 then 0 else 16)"
      using nb by (simp only: E1 if_False)
    have "0 \<le> M' ! (length M0 + i)" unfolding eq by simp
    moreover have "16 \<le> i \<Longrightarrow> 16 \<le> M' ! (length M0 + i)" unfolding eq by simp
    ultimately show ?thesis using lt by blast
  qed
  show ?thesis
  proof (intro conjI impI allI)
    fix i :: nat
    assume "DecodePSHUFBMask_C SZ C M0 = Inr M" "sint (TypeNumElements C) = 32"
      "i < 32" "M ! (length M0 + i) \<noteq> SZ"
    note c = C [OF this]
    { assume "i < 16"
      then show "0 \<le> M ! (length M0 + i)" "M ! (length M0 + i) < 32" using c by simp_all }
    { assume "16 \<le> i"
      then show "16 \<le> M ! (length M0 + i)" "M ! (length M0 + i) < 32" using c by simp_all }
  next
    fix i :: nat
    assume "DecodePSHUFBMask_RawMask SZ RawMask M0 = Inr M'" "length RawMask = 32"
      "\<forall>x \<in> set RawMask. unat x < 256" "i < 32" "M' ! (length M0 + i) \<noteq> SZ"
    note r = R [OF this]
    { assume "i < 16"
      then show "0 \<le> M' ! (length M0 + i)" "M' ! (length M0 + i) < 32" using r by simp_all }
    { assume "16 \<le> i"
      then show "16 \<le> M' ! (length M0 + i)" "M' ! (length M0 + i) < 32" using r by simp_all }
  qed
qed

lemma PSHUFB_RawMask_run_20:
  "DecodePSHUFBMask_RawMask (- 1) ([0, 0, 20, 0, 0, 0, 0, 0, 0, 0, 0, 0, 0, 0, 0, 0, 0, 0, 0, 0, 5, 0, 0, 0, 0, 0, 0, 0, 0, 0, 0, 0]) []
     = Inr ([0, 0, 20, 0, 0, 0, 0, 0, 0, 0, 0, 0, 0, 0, 0, 0, 16, 16, 16, 16, 21, 16, 16, 16, 16, 16, 16, 16, 16, 16, 16, 16])"
  by code_simp

lemma PSHUFB_C_run_20:
  "DecodePSHUFBMask_C (- 1)
     \<lparr>TypeIsVector = True, TypeElementBits = 8, TypeNumElements = 32,
      ElementData = [0, 0, 20, 0, 0, 0, 0, 0, 0, 0, 0, 0, 0, 0, 0, 0, 0, 0, 0, 0, 5, 0, 0, 0, 0, 0, 0, 0, 0, 0, 0, 0]\<rparr> []
     = Inr ([0, 0, 20, 0, 0, 0, 0, 0, 0, 0, 0, 0, 0, 0, 0, 0, 16, 16, 16, 16, 21, 16, 16, 16, 16, 16, 16, 16, 16, 16, 16, 16])"
  by code_simp

section \<open>Lane geometry\<close>

text \<open>
  C9 at a 64-bit vector type. For 4 elements of 16 bits the size in bits is 64, so
  \<open>NumLanes = 64 / 128 = 0\<close>: the immediate-permute, the shuffle-and-pack and the align decoder
  (8 elements of 8 bits) divide the element count by it, while the two unpack decoders
  replace 0 by 1 first and decode the type as one lane.
\<close>

theorem narrow_vector_lane_geometry:
  "DecodePSHUFMask \<lparr>VectorNumElements = 4, ElementSizeInBits = 16\<rparr> Imm M = Some (Inl DivisionByZero)
   \<and> DecodeSHUFPMask \<lparr>VectorNumElements = 4, ElementSizeInBits = 16\<rparr> Imm M = Some (Inl DivisionByZero)
   \<and> DecodePALIGNRMask \<lparr>VectorNumElements = 8, ElementSizeInBits = 8\<rparr> Imm M = Some (Inl DivisionByZero)
   \<and> DecodeUNPCKHMask \<lparr>VectorNumElements = 4, ElementSizeInBits = 16\<rparr> [] = Some [2, 6, 3, 7]
   \<and> DecodeUNPCKLMask \<lparr>VectorNumElements = 4, ElementSizeInBits = 16\<rparr> [] = Some [0, 4, 1, 5]"
proof (intro conjI)
  show "DecodePSHUFMask \<lparr>VectorNumElements = 4, ElementSizeInBits = 16\<rparr> Imm M = Some (Inl DivisionByZero)"
    by (simp add: DecodePSHUFMask_def getSizeInBits_def)
  show "DecodeSHUFPMask \<lparr>VectorNumElements = 4, ElementSizeInBits = 16\<rparr> Imm M = Some (Inl DivisionByZero)"
    by (simp add: DecodeSHUFPMask_def getSizeInBits_def)
  show "DecodePALIGNRMask \<lparr>VectorNumElements = 8, ElementSizeInBits = 8\<rparr> Imm M = Some (Inl DivisionByZero)"
    by (simp add: DecodePALIGNRMask_def getSizeInBits_def)
  show "DecodeUNPCKHMask \<lparr>VectorNumElements = 4, ElementSizeInBits = 16\<rparr> [] = Some [2, 6, 3, 7]"
    by code_simp
  show "DecodeUNPCKLMask \<lparr>VectorNumElements = 4, ElementSizeInBits = 16\<rparr> [] = Some [0, 4, 1, 5]"
    by code_simp
qed

section \<open>Decoding lane by lane\<close>

lemma lane_arith:
  fixes n b :: nat
  assumes b: "b \<in> {8, 16, 32, 64}" and n: "0 < n" and d: "128 dvd n * b"
  shows "0 < n * b div 128" and "n div (n * b div 128) = 128 div b"
    and "n = (n * b div 128) * (128 div b)" and "128 div b \<in> {2, 4, 8, 16}"
proof -
  obtain m where m: "128 = b * m" "m = 128 div b" "0 < b" "m \<in> {2, 4, 8, 16}"
    using b by auto
  obtain L where L: "n * b = 128 * L" using d by (auto simp: dvd_def)
  then have "b * n = b * (m * L)" using m(1) by (metis mult.commute mult.assoc)
  then have nL: "n = m * L" using m(3) by simp
  have Ld: "n * b div 128 = L" using L by simp
  have Lpos: "0 < L" using nL n by (cases L) simp_all
  show "0 < n * b div 128" using Ld Lpos by simp
  show "n div (n * b div 128) = 128 div b" using Ld nL Lpos m(2) by simp
  show "n = (n * b div 128) * (128 div b)" using Ld nL m(2) by (simp add: mult.commute)
  show "128 div b \<in> {2, 4, 8, 16}" using m by simp
qed

lemma lane_shape_geometry:
  assumes "lane_shape VT"
  defines "L \<equiv> unat (getSizeInBits VT div 128)"
    and "m \<equiv> unat (getVectorNumElements VT div (getSizeInBits VT div 128))"
  shows "getSizeInBits VT div 128 \<noteq> 0" and "0 < L" and "m \<in> {2, 4, 8, 16}"
    and "unat (getVectorNumElements VT) = L * m"
    and "m = 128 div unat (ElementSizeInBits VT)"
    and "L * m < 2 ^ 29"
proof -
  let ?n = "unat (VectorNumElements VT)" and ?b = "unat (ElementSizeInBits VT)"
  have b: "?b \<in> {8, 16, 32, 64}" and n: "0 < ?n" and lt: "?n * ?b < 2 ^ 32"
    and d: "128 dvd ?n * ?b"
    using assms(1) by (simp_all add: lane_shape_def)
  have "?n * ?b < 2 ^ LENGTH(32)" using lt by simp
  then have sz: "unat (getSizeInBits VT) = ?n * ?b"
    unfolding getSizeInBits_def by (simp only: unat_mult_lem)
  have Leq: "L = ?n * ?b div 128" unfolding L_def by (simp add: unat_div sz)
  note A = lane_arith [OF b n d]
  show Lpos: "0 < L" using A(1) Leq by simp
  then show "getSizeInBits VT div 128 \<noteq> 0" unfolding L_def by (auto simp: unat_eq_0)
  have meq: "m = ?n div L" unfolding m_def getVectorNumElements_def L_def by (simp add: unat_div)
  then show m: "m = 128 div ?b" using A(2) Leq by simp
  show "m \<in> {2, 4, 8, 16}" using A(4) m by simp
  show nm: "unat (getVectorNumElements VT) = L * m"
    unfolding getVectorNumElements_def using A(3) Leq m by simp
  have "8 \<le> ?b" using b by auto
  then have "?n * 8 \<le> ?n * ?b" by (rule mult_le_mono2)
  then have "?n * 8 < 2 ^ 32" using lt by (rule le_less_trans)
  then have "?n < 2 ^ 29" by simp
  then show "L * m < 2 ^ 29" using nm by (simp add: getVectorNumElements_def)
qed

lemma length_concat_uniform:
  "(\<And>k. k < L \<Longrightarrow> length (h k) = m) \<Longrightarrow> length (concat (map h [0..<L])) = L * m"
  by (induction L) simp_all

lemma nth_concat_uniform:
  assumes "\<And>k. k < L \<Longrightarrow> length (h k) = m" and "k < L" and "i < m"
  shows "concat (map h [0..<L]) ! (k * m + i) = h k ! i"
  using assms
proof (induction L)
  case 0
  then show ?case by simp
next
  case (Suc L)
  have len: "length (concat (map h [0..<L])) = L * m"
    by (rule length_concat_uniform) (simp add: Suc.prems(1))
  show ?case
  proof (cases "k < L")
    case True
    have "k * m + i < L * m"
    proof -
      have "k * m + i < k * m + m" using Suc.prems(3) by simp
      also have "\<dots> = Suc k * m" by simp
      also have "\<dots> \<le> L * m" using True by (intro mult_le_mono1) simp
      finally show ?thesis .
    qed
    then show ?thesis using Suc True len by (simp add: nth_append)
  next
    case False
    then have "k = L" using Suc.prems(2) by simp
    then show ?thesis using len by (simp add: nth_append)
  qed
qed

lemma unat_add_nowrap:
  "unat (a :: u32) + unat b < 2 ^ 32 \<Longrightarrow> unat (a + b) = unat a + unat b"
proof -
  assume "unat a + unat b < 2 ^ 32"
  then have "unat a + unat b < 2 ^ LENGTH(32)" by simp
  then show ?thesis by (simp only: unat_add_lem)
qed

lemma unat_mult_nowrap:
  "unat (a :: u32) * unat b < 2 ^ 32 \<Longrightarrow> unat (a * b) = unat a * unat b"
proof -
  assume "unat a * unat b < 2 ^ 32"
  then have "unat a * unat b < 2 ^ LENGTH(32)" by simp
  then show ?thesis by (simp only: unat_mult_lem)
qed





section \<open>The align decoder\<close>


lemma lane_shape_32x8: "lane_shape \<lparr>VectorNumElements = 32, ElementSizeInBits = 8\<rparr>"
  by (simp add: lane_shape_def)

section \<open>Loops that drain an immediate\<close>

lemma iter_digits:
  "iter n (\<lambda>k (a, M). (d a, push_back M (g a))) (a, M)
     = ((d ^^ n) a, M @ map (\<lambda>k. g ((d ^^ k) a)) [0..<n])"
  by (induction n) (simp_all add: push_back_def)

lemma for_ne_digits:
  "for_ne 0 e (\<lambda>i (a, M). (d a, push_back M (g a))) (a, M)
     = ((d ^^ unat e) a, M @ map (\<lambda>k. g ((d ^^ k) a)) [0..<unat e])"
  unfolding for_ne_iter by (simp add: iter_digits)

lemma iter_lanes:
  "iter L (\<lambda>k (a, M). (nx a, M @ lane k a)) (a, M)
     = ((nx ^^ L) a, M @ concat (map (\<lambda>k. lane k ((nx ^^ k) a)) [0..<L]))"
  by (induction L) simp_all

lemma reload_funpow:
  "((\<lambda>a. if r then Imm else (d ^^ m) a) ^^ k) Imm = (if r then Imm else (d ^^ (k * m)) Imm)"
proof (cases r)
  case True
  have "((\<lambda>a. Imm) ^^ k) Imm = Imm" by (induction k) simp_all
  then show ?thesis using True by simp
next
  case False
  have "((\<lambda>a. (d ^^ m) a) ^^ k) = d ^^ (m * k)" by (simp add: funpow_mult)
  then show ?thesis using False by (simp add: mult.commute)
qed

lemma unat_funpow_div:
  fixes x c :: u32
  shows "unat (((\<lambda>a. a div c) ^^ j) x) = unat x div unat c ^ j"
proof (induction j)
  case 0
  then show ?case by simp
next
  case (Suc j)
  then show ?case by (simp add: unat_div div_mult2_eq [symmetric] mult.commute)
qed

lemma digit_entry:
  fixes x c :: u32
  assumes c: "0 < unat c" and b: "(k + 1) * unat c + r < 2 ^ 31" and ur: "unat w = r"
  shows "sint (x mod c + w + of_nat k * c) = int (unat x mod unat c + r + k * unat c)"
proof -
  have "unat x mod unat c < unat c" using c by simp
  then have lt: "unat x mod unat c + r + k * unat c < 2 ^ 31" using b by simp
  have kc: "k * unat c < 2 ^ 32" using b by simp
  have u1: "unat (x mod c + w) = unat x mod unat c + r"
    using lt ur by (simp add: unat_add_nowrap unat_mod)
  have u2: "unat (of_nat k * c) = k * unat c" by (rule unat_of_nat_mult [OF kc c])
  have "unat (x mod c + w + of_nat k * c) = unat x mod unat c + r + k * unat c"
    using lt u1 u2 by (simp add: unat_add_nowrap)
  then show ?thesis using lt by (simp add: sint_unat)
qed

lemma DecodePSHUFMask_lanes:
  assumes sh: "lane_shape VT"
  shows "DecodePSHUFMask VT Imm M =
    (let NumLaneElts = getVectorNumElements VT div (getSizeInBits VT div 128)
     in Some (Inr (M @ concat (map (\<lambda>k. map (\<lambda>i.
            sint (((\<lambda>a. a div NumLaneElts) ^^ (if NumLaneElts = 4 then i else k * unat NumLaneElts + i)) Imm
                    mod NumLaneElts + of_nat k * NumLaneElts))
          [0..<unat NumLaneElts]) [0..<unat (getSizeInBits VT div 128)]))))"
proof -
  let ?NLE = "getVectorNumElements VT div (getSizeInBits VT div 128)"
  let ?L = "unat (getSizeInBits VT div 128)"
  let ?d = "\<lambda>a. a div ?NLE"
  let ?nx = "\<lambda>a. if ?NLE = 4 then Imm else (?d ^^ unat ?NLE) a"
  let ?lane = "\<lambda>k a. map (\<lambda>i. sint ((?d ^^ i) a mod ?NLE + of_nat k * ?NLE)) [0..<unat ?NLE]"
  note G = lane_shape_geometry [OF sh]
  have m: "0 < unat ?NLE" using G(3) by auto
  have loop: "for_step 0 (getVectorNumElements VT) ?NLE
      (\<lambda>l (NewImm, ShuffleMask).
          let (NewImm, ShuffleMask) =
                for_ne 0 ?NLE (\<lambda>i (NewImm, ShuffleMask).
                  (NewImm div ?NLE, push_back ShuffleMask (sint (NewImm mod ?NLE + l))))
                  (NewImm, ShuffleMask)
          in Some (if ?NLE = 4 then Imm else NewImm, ShuffleMask)) (Imm, M)
     = Some (iter ?L (\<lambda>k (a, M). (?nx a, M @ ?lane k a)) (Imm, M))"
    by (rule for_step_iter [OF G(4) m]) (simp add: for_ne_digits split: prod.splits)
  have snd: "snd (iter ?L (\<lambda>k (a, M). (?nx a, M @ ?lane k a)) (Imm, M))
     = M @ concat (map (\<lambda>k. map (\<lambda>i.
            sint ((?d ^^ (if ?NLE = 4 then i else k * unat ?NLE + i)) Imm
                    mod ?NLE + of_nat k * ?NLE))
          [0..<unat ?NLE]) [0..<?L])"
    unfolding iter_lanes reload_funpow
    by (auto simp: funpow_add add.commute intro!: arg_cong [where f = concat])
  show ?thesis
    unfolding DecodePSHUFMask_def Let_def loop [unfolded Let_def]
    using G(1) by (simp add: snd)
qed

lemma for_step_twice:
  fixes e :: u32
  assumes "unat e < 2 ^ 31" and "0 < unat e"
  shows "for_step 0 (e * 2) e (\<lambda>s st. Some (f s st)) st = Some (f e (f 0 st))"
proof -
  have "unat e * unat (2 :: u32) < 2 ^ 32" using assms(1) by simp
  then have e2: "unat (e * 2) = 2 * unat e" by (simp add: unat_mult_nowrap)
  have "for_step 0 (e * 2) e (\<lambda>s st. Some (f s st)) st
      = Some (iter 2 (\<lambda>k. f (of_nat k * e)) st)"
    by (rule for_step_iter [OF e2 assms(2)]) simp
  then show ?thesis by (simp add: numeral_2_eq_2)
qed

lemma DecodeSHUFPMask_lanes:
  assumes sh: "lane_shape VT"
  shows "DecodeSHUFPMask VT Imm M =
    (let NumElts = getVectorNumElements VT;
         NumLaneElts = NumElts div (getSizeInBits VT div 128);
         h = unat (NumLaneElts div 2)
     in Some (Inr (M @ concat (map (\<lambda>k.
          map (\<lambda>i. sint (((\<lambda>a. a div NumLaneElts) ^^ (if NumLaneElts = 4 then i else k * (h + h) + i)) Imm
                          mod NumLaneElts + 0 + of_nat k * NumLaneElts)) [0..<h]
          @ map (\<lambda>i. sint (((\<lambda>a. a div NumLaneElts) ^^ (if NumLaneElts = 4 then h + i else k * (h + h) + (h + i))) Imm
                          mod NumLaneElts + NumElts + of_nat k * NumLaneElts)) [0..<h])
          [0..<unat (getSizeInBits VT div 128)]))))"
proof -
  define N where "N = getVectorNumElements VT"
  define NLE where "NLE = getVectorNumElements VT div (getSizeInBits VT div 128)"
  define L where "L = unat (getSizeInBits VT div 128)"
  define h where "h = unat (NLE div 2)"
  define r where "r \<longleftrightarrow> NLE = 4"
  let ?d = "\<lambda>a. a div NLE"
  define inn where "inn l s st = for_ne 0 (NLE div 2) (\<lambda>i (NewImm, ShuffleMask).
      (NewImm div NLE, push_back ShuffleMask (sint (NewImm mod NLE + s + l)))) st"
    for l s :: u32 and st :: "u32 \<times> int list"
  define lane where "lane k a =
      map (\<lambda>i. sint ((?d ^^ i) a mod NLE + 0 + of_nat k * NLE)) [0..<h]
      @ map (\<lambda>i. sint ((?d ^^ (h + i)) a mod NLE + N + of_nat k * NLE)) [0..<h]" for k a
  define nx where "nx a = (if r then Imm else (?d ^^ (h + h)) a)" for a
  note G = lane_shape_geometry [OF sh, folded NLE_def N_def, folded L_def]
  have m: "0 < unat NLE" using G(3) by auto
  have n31: "unat N < 2 ^ 31" and npos: "0 < unat N"
    using G(2,4,6) m by auto
  have inn_eq: "inn l s (a, M) = ((?d ^^ h) a, M @ map (\<lambda>k. sint ((?d ^^ k) a mod NLE + s + l)) [0..<h])"
    for l s a M
    unfolding inn_def h_def by (simp add: for_ne_digits)
  have sloop: "for_step 0 (N * 2) N (\<lambda>s (NewImm, ShuffleMask).
               Some (for_ne 0 (NLE div 2) (\<lambda>i (NewImm, ShuffleMask).
                 (NewImm div NLE, push_back ShuffleMask (sint (NewImm mod NLE + s + l))))
                 (NewImm, ShuffleMask))) st = Some (inn l N (inn l 0 st))" for l st
  proof -
    have "(\<lambda>s (NewImm, ShuffleMask).
               Some (for_ne 0 (NLE div 2) (\<lambda>i (NewImm, ShuffleMask).
                 (NewImm div NLE, push_back ShuffleMask (sint (NewImm mod NLE + s + l))))
                 (NewImm, ShuffleMask))) = (\<lambda>s st. Some (inn l s st))"
      by (auto simp: inn_def fun_eq_iff)
    then show ?thesis by (simp only: for_step_twice [OF n31 npos])
  qed
  have body: "Option.bind
            (for_step 0 (N * 2) N (\<lambda>s (NewImm, ShuffleMask).
               Some (for_ne 0 (NLE div 2) (\<lambda>i (NewImm, ShuffleMask).
                 (NewImm div NLE, push_back ShuffleMask (sint (NewImm mod NLE + s + of_nat k * NLE))))
                 (NewImm, ShuffleMask)))
             (a, M))
            (\<lambda>(NewImm, ShuffleMask). Some (if NLE = 4 then Imm else NewImm, ShuffleMask))
        = Some (nx a, M @ lane k a)" for k a M
    unfolding sloop inn_eq
    by (simp add: nx_def lane_def r_def funpow_add add.commute)
  have loop: "for_step 0 N NLE
      (\<lambda>l (NewImm, ShuffleMask).
          Option.bind
            (for_step 0 (N * 2) N (\<lambda>s (NewImm, ShuffleMask).
               Some (for_ne 0 (NLE div 2) (\<lambda>i (NewImm, ShuffleMask).
                 (NewImm div NLE, push_back ShuffleMask (sint (NewImm mod NLE + s + l))))
                 (NewImm, ShuffleMask)))
             (NewImm, ShuffleMask))
            (\<lambda>(NewImm, ShuffleMask). Some (if NLE = 4 then Imm else NewImm, ShuffleMask)))
        (Imm, M)
     = Some (iter L (\<lambda>k (a, M). (nx a, M @ lane k a)) (Imm, M))"
  proof (rule for_step_iter [OF G(4) m])
    fix k and s :: "u32 \<times> int list"
    obtain a M' where s: "s = (a, M')" by (cases s)
    show "(case s of (NewImm, ShuffleMask) \<Rightarrow>
          Option.bind
            (for_step 0 (N * 2) N (\<lambda>s (NewImm, ShuffleMask).
               Some (for_ne 0 (NLE div 2) (\<lambda>i (NewImm, ShuffleMask).
                 (NewImm div NLE, push_back ShuffleMask (sint (NewImm mod NLE + s + of_nat k * NLE))))
                 (NewImm, ShuffleMask)))
             (NewImm, ShuffleMask))
            (\<lambda>(NewImm, ShuffleMask). Some (if NLE = 4 then Imm else NewImm, ShuffleMask)))
       = Some (case s of (a, M) \<Rightarrow> (nx a, M @ lane k a))"
      unfolding s prod.case by (rule body)
  qed
  have nxk: "(nx ^^ k) Imm = (if r then Imm else (?d ^^ (k * (h + h))) Imm)" for k
    using reload_funpow [where r = r and Imm = Imm and d = ?d and m = "h + h" and k = k] by (simp add: nx_def [abs_def])
  have snd: "snd (iter L (\<lambda>k (a, M). (nx a, M @ lane k a)) (Imm, M))
     = M @ concat (map (\<lambda>k.
          map (\<lambda>i. sint ((?d ^^ (if r then i else k * (h + h) + i)) Imm
                          mod NLE + 0 + of_nat k * NLE)) [0..<h]
          @ map (\<lambda>i. sint ((?d ^^ (if r then h + i else k * (h + h) + (h + i))) Imm
                          mod NLE + N + of_nat k * NLE)) [0..<h])
          [0..<L])"
    unfolding iter_lanes nxk lane_def
    by (auto simp: funpow_add add.commute add.left_commute intro!: arg_cong [where f = concat])
  have "DecodeSHUFPMask VT Imm M = Some (Inr (snd (iter L (\<lambda>k (a, M). (nx a, M @ lane k a)) (Imm, M))))"
    unfolding DecodeSHUFPMask_def Let_def
    using G(1) loop [unfolded NLE_def N_def] by simp
  note A = this [unfolded snd]
  show ?thesis
    using A unfolding Let_def h_def r_def L_def N_def NLE_def .
qed

lemma digit_nat:
  assumes sh: "lane_shape VT"
    and k: "k < unat (getSizeInBits VT div 128)"
    and w: "unat w = r" and r: "r \<le> unat (getVectorNumElements VT)"
  shows "sint (((\<lambda>a. a div (getVectorNumElements VT div (getSizeInBits VT div 128))) ^^ j) Imm
                 mod (getVectorNumElements VT div (getSizeInBits VT div 128))
               + w + of_nat k * (getVectorNumElements VT div (getSizeInBits VT div 128)))
       = int (unat Imm div unat (getVectorNumElements VT div (getSizeInBits VT div 128)) ^ j
                mod unat (getVectorNumElements VT div (getSizeInBits VT div 128))
              + r + k * unat (getVectorNumElements VT div (getSizeInBits VT div 128)))"
proof -
  let ?NLE = "getVectorNumElements VT div (getSizeInBits VT div 128)"
  note G = lane_shape_geometry [OF sh]
  have m: "0 < unat ?NLE" using G(3) by auto
  have "Suc k * unat ?NLE \<le> unat (getSizeInBits VT div 128) * unat ?NLE"
    using k by (intro mult_le_mono1) simp
  then have "(k + 1) * unat ?NLE \<le> unat (getVectorNumElements VT)" using G(4) by simp
  then have b: "(k + 1) * unat ?NLE + r < 2 ^ 31" using r G(4,6) by simp
  show ?thesis
    using digit_entry [OF m b w, of "((\<lambda>a. a div ?NLE) ^^ j) Imm"]
    by (simp only: unat_funpow_div)
qed

lemma nle4: "(x :: u32) = 4 \<longleftrightarrow> unat x = 4"
  by (simp add: word_unat_eq_iff)

lemma nth_map_upt0: "i < n \<Longrightarrow> map f [0..<n] ! i = f i"
  by simp

lemma nth_two_maps:
  "p < a + a \<Longrightarrow> (map f [0..<a] @ map g [0..<a]) ! p = (if p < a then f p else g (p - a))"
  by (simp add: nth_append)

lemma DecodePSHUFMask_entries:
  assumes sh: "lane_shape VT"
  defines "n \<equiv> unat (getVectorNumElements VT)"
    and "L \<equiv> unat (getSizeInBits VT div 128)"
    and "m \<equiv> unat (getVectorNumElements VT div (getSizeInBits VT div 128))"
  shows "\<exists>Mask. DecodePSHUFMask VT Imm M0 = Some (Inr Mask)
     \<and> length Mask = length M0 + n
     \<and> (\<forall>l < L. \<forall>p < m. Mask ! (length M0 + l * m + p) =
            int (unat Imm div m ^ (if m = 4 then p else l * m + p) mod m + l * m))"
proof -
  let ?NLE = "getVectorNumElements VT div (getSizeInBits VT div 128)"
  let ?e = "\<lambda>k i. sint (((\<lambda>a. a div ?NLE) ^^ (if ?NLE = 4 then i else k * unat ?NLE + i)) Imm
                    mod ?NLE + of_nat k * ?NLE)"
  define h where "h k = map (?e k) [0..<unat ?NLE]" for k
  define Mask where "Mask = M0 @ concat (map h [0..<L])"
  note G = lane_shape_geometry [OF sh]
  have run: "DecodePSHUFMask VT Imm M0 = Some (Inr Mask)"
    unfolding DecodePSHUFMask_lanes [OF sh] Let_def Mask_def h_def L_def ..
  have lh: "length (h k) = m" for k by (simp add: h_def m_def)
  have len: "length Mask = length M0 + n"
    unfolding Mask_def n_def G(4) by (simp add: length_concat_uniform [OF lh] L_def m_def)
  have nth: "Mask ! (length M0 + l * m + p) =
      int (unat Imm div m ^ (if m = 4 then p else l * m + p) mod m + l * m)"
    if l: "l < L" and p: "p < m" for l p
  proof -
    have "Mask ! (length M0 + l * m + p) = concat (map h [0..<L]) ! (l * m + p)"
      unfolding Mask_def by (simp add: nth_append add.assoc)
    also have "\<dots> = h l ! p" by (rule nth_concat_uniform [OF lh l p])
    also have "\<dots> = ?e l p"
      unfolding h_def by (rule nth_map_upt0) (use p in \<open>simp add: m_def\<close>)
    also have "\<dots> = int (unat Imm div m ^ (if m = 4 then p else l * m + p) mod m + 0 + l * m)"
      using digit_nat [OF sh l [unfolded L_def], of 0 0 "if ?NLE = 4 then p else l * unat ?NLE + p" Imm]
      by (simp add: m_def nle4)
    finally show ?thesis by simp
  qed
  show ?thesis using run len nth by blast
qed

lemma DecodeSHUFPMask_entries:
  assumes sh: "lane_shape VT"
  defines "n \<equiv> unat (getVectorNumElements VT)"
    and "L \<equiv> unat (getSizeInBits VT div 128)"
    and "m \<equiv> unat (getVectorNumElements VT div (getSizeInBits VT div 128))"
  shows "\<exists>Mask. DecodeSHUFPMask VT Imm M0 = Some (Inr Mask)
     \<and> length Mask = length M0 + n
     \<and> (\<forall>l < L. \<forall>p < m. Mask ! (length M0 + l * m + p) =
            int (unat Imm div m ^ (if m = 4 then p else l * m + p) mod m
                 + (if p < m div 2 then 0 else n) + l * m))"
proof -
  let ?N = "getVectorNumElements VT"
  let ?NLE = "getVectorNumElements VT div (getSizeInBits VT div 128)"
  let ?h = "unat (?NLE div 2)"
  let ?e1 = "\<lambda>k i. sint (((\<lambda>a. a div ?NLE) ^^ (if ?NLE = 4 then i else k * (?h + ?h) + i)) Imm
                          mod ?NLE + 0 + of_nat k * ?NLE)"
  let ?e2 = "\<lambda>k i. sint (((\<lambda>a. a div ?NLE) ^^ (if ?NLE = 4 then ?h + i else k * (?h + ?h) + (?h + i))) Imm
                          mod ?NLE + ?N + of_nat k * ?NLE)"
  define h where "h k = map (?e1 k) [0..<?h] @ map (?e2 k) [0..<?h]" for k
  define Mask where "Mask = M0 @ concat (map h [0..<L])"
  note G = lane_shape_geometry [OF sh]
  have hh: "?h + ?h = m"
    using G(3) by (auto simp: unat_div m_def)
  have hd: "?h = m div 2" using hh by simp
  have run: "DecodeSHUFPMask VT Imm M0 = Some (Inr Mask)"
    unfolding DecodeSHUFPMask_lanes [OF sh] Let_def Mask_def h_def L_def ..
  have lh: "length (h k) = m" for k by (simp add: h_def hh)
  have len: "length Mask = length M0 + n"
    unfolding Mask_def n_def G(4) by (simp add: length_concat_uniform [OF lh] L_def m_def)
  have nth: "Mask ! (length M0 + l * m + p) =
      int (unat Imm div m ^ (if m = 4 then p else l * m + p) mod m
           + (if p < m div 2 then 0 else n) + l * m)"
    if l: "l < L" and p: "p < m" for l p
  proof -
    have "Mask ! (length M0 + l * m + p) = concat (map h [0..<L]) ! (l * m + p)"
      unfolding Mask_def by (simp add: nth_append add.assoc)
    also have "\<dots> = h l ! p" by (rule nth_concat_uniform [OF lh l p])
    finally have M: "Mask ! (length M0 + l * m + p) = h l ! p" .
    show ?thesis
    proof (cases "p < ?h")
      case True
      have "p < ?h + ?h" using p hh by simp
      then have "h l ! p = ?e1 l p"
        unfolding h_def using True by (simp only: nth_two_maps if_True)
      also have "\<dots> = int (unat Imm div m ^ (if m = 4 then p else l * m + p) mod m + 0 + l * m)"
        using digit_nat [OF sh l [unfolded L_def], of 0 0
            "if ?NLE = 4 then p else l * (?h + ?h) + p" Imm]
        unfolding hh by (simp add: m_def nle4)
      finally show ?thesis using True M hd by simp
    next
      case False
      then have ph: "p - ?h < ?h" and pe: "?h + (p - ?h) = p" using p hh by simp_all
      have un: "unat ?N = n" by (simp add: n_def)
      have "p < ?h + ?h" using p hh by simp
      then have "h l ! p = ?e2 l (p - ?h)"
        unfolding h_def using False by (simp only: nth_two_maps if_False)
      also have "\<dots> = int (unat Imm div m ^ (if m = 4 then p else l * m + p) mod m + n + l * m)"
        using digit_nat [OF sh l [unfolded L_def] un, of
            "if ?NLE = 4 then ?h + (p - ?h) else l * (?h + ?h) + (?h + (p - ?h))" Imm]
        unfolding hh pe by (simp add: m_def n_def nle4)
      finally show ?thesis using False M hd by simp
    qed
  qed
  show ?thesis using run len nth by blast
qed

section \<open>The immediate-permute decoder and its shuffle-and-pack sibling\<close>

text \<open>
  C8. On a vector type of whole 128-bit lanes, with \<open>n\<close> elements in \<open>L\<close> lanes of \<open>m\<close>
  elements, both decoders return \<open>n\<close> entries. The entry for position \<open>p\<close> of lane \<open>l\<close> is
  a base-\<open>m\<close> digit of the immediate plus the lane base \<open>l * m\<close> (and, in the shuffle-and-pack
  decoder, plus \<open>n\<close> in the upper half of the lane, which reads the second source). When
  \<open>m = 4\<close> it is digit \<open>p\<close>, the same in every lane: the working immediate was reloaded, and
  every lane carries the pattern of lane 0 offset by its base. For every other lane width it
  is digit \<open>l * m + p\<close>: the working immediate keeps draining across the lanes.
\<close>

theorem PSHUF_SHUFP_reload:
  assumes sh: "lane_shape VT"
  shows "(let n = unat (getVectorNumElements VT);
             L = unat (getSizeInBits VT div 128);
             m = unat (getVectorNumElements VT div (getSizeInBits VT div 128))
          in (\<exists>Mask. DecodePSHUFMask VT Imm M0 = Some (Inr Mask)
                \<and> length Mask = length M0 + n
                \<and> (\<forall>l < L. \<forall>p < m. Mask ! (length M0 + l * m + p) =
                       int (unat Imm div m ^ (if m = 4 then p else l * m + p) mod m + l * m))
                \<and> (m = 4 \<longrightarrow> (\<forall>l < L. \<forall>p < m.
                       Mask ! (length M0 + l * m + p) = Mask ! (length M0 + p) + int (l * m))))
           \<and> (\<exists>Mask. DecodeSHUFPMask VT Imm M0 = Some (Inr Mask)
                \<and> length Mask = length M0 + n
                \<and> (\<forall>l < L. \<forall>p < m. Mask ! (length M0 + l * m + p) =
                       int (unat Imm div m ^ (if m = 4 then p else l * m + p) mod m
                            + (if p < m div 2 then 0 else n) + l * m))
                \<and> (m = 4 \<longrightarrow> (\<forall>l < L. \<forall>p < m.
                       Mask ! (length M0 + l * m + p) = Mask ! (length M0 + p) + int (l * m)))))"
proof -
  define n where "n = unat (getVectorNumElements VT)"
  define L where "L = unat (getSizeInBits VT div 128)"
  define m where "m = unat (getVectorNumElements VT div (getSizeInBits VT div 128))"
  have Lpos: "0 < L" using lane_shape_geometry(2) [OF sh] by (simp add: L_def)
  obtain P where P: "DecodePSHUFMask VT Imm M0 = Some (Inr P)" "length P = length M0 + n"
    and Pn: "\<And>l p. l < L \<Longrightarrow> p < m \<Longrightarrow> P ! (length M0 + l * m + p) =
            int (unat Imm div m ^ (if m = 4 then p else l * m + p) mod m + l * m)"
    using DecodePSHUFMask_entries [OF sh, of Imm M0, folded n_def L_def m_def] by blast
  obtain S where S: "DecodeSHUFPMask VT Imm M0 = Some (Inr S)" "length S = length M0 + n"
    and Sn: "\<And>l p. l < L \<Longrightarrow> p < m \<Longrightarrow> S ! (length M0 + l * m + p) =
            int (unat Imm div m ^ (if m = 4 then p else l * m + p) mod m
                 + (if p < m div 2 then 0 else n) + l * m)"
    using DecodeSHUFPMask_entries [OF sh, of Imm M0, folded n_def L_def m_def] by blast
  have P4: "P ! (length M0 + l * m + p) = P ! (length M0 + p) + int (l * m)"
    if "m = 4" "l < L" "p < m" for l p
    using Pn [OF that(2,3)] Pn [OF Lpos that(3)] that(1) by simp
  have S4: "S ! (length M0 + l * m + p) = S ! (length M0 + p) + int (l * m)"
    if "m = 4" "l < L" "p < m" for l p
    using Sn [OF that(2,3)] Sn [OF Lpos that(3)] that(1) by simp
  have "(\<exists>Mask. DecodePSHUFMask VT Imm M0 = Some (Inr Mask)
                \<and> length Mask = length M0 + n
                \<and> (\<forall>l < L. \<forall>p < m. Mask ! (length M0 + l * m + p) =
                       int (unat Imm div m ^ (if m = 4 then p else l * m + p) mod m + l * m))
                \<and> (m = 4 \<longrightarrow> (\<forall>l < L. \<forall>p < m.
                       Mask ! (length M0 + l * m + p) = Mask ! (length M0 + p) + int (l * m))))"
    by (rule exI [of _ P]) (use P Pn P4 in blast)
  moreover have "(\<exists>Mask. DecodeSHUFPMask VT Imm M0 = Some (Inr Mask)
                \<and> length Mask = length M0 + n
                \<and> (\<forall>l < L. \<forall>p < m. Mask ! (length M0 + l * m + p) =
                       int (unat Imm div m ^ (if m = 4 then p else l * m + p) mod m
                            + (if p < m div 2 then 0 else n) + l * m))
                \<and> (m = 4 \<longrightarrow> (\<forall>l < L. \<forall>p < m.
                       Mask ! (length M0 + l * m + p) = Mask ! (length M0 + p) + int (l * m))))"
    by (rule exI [of _ S]) (use S Sn S4 in blast)
  ultimately show ?thesis unfolding Let_def n_def L_def m_def by (rule conjI)
qed

lemma lane_shape_8x32: "lane_shape \<lparr>VectorNumElements = 8, ElementSizeInBits = 32\<rparr>"
  by (simp add: lane_shape_def)

lemma lane_shape_4x64: "lane_shape \<lparr>VectorNumElements = 4, ElementSizeInBits = 64\<rparr>"
  by (simp add: lane_shape_def)

theorem PSHUF_SHUFP_reload_witness:
  "lane_shape \<lparr>VectorNumElements = 8, ElementSizeInBits = 32\<rparr>
   \<and> unat (getVectorNumElements \<lparr>VectorNumElements = 8, ElementSizeInBits = 32\<rparr>
        div (getSizeInBits \<lparr>VectorNumElements = 8, ElementSizeInBits = 32\<rparr> div 128)) = 4
   \<and> (\<exists>Mask. DecodePSHUFMask \<lparr>VectorNumElements = 8, ElementSizeInBits = 32\<rparr> 0x1B [] = Some (Inr Mask)
         \<and> length Mask = 8 \<and> Mask ! 5 = 2 + 4 \<and> Mask ! 5 = Mask ! 1 + 4)
   \<and> (\<exists>Mask. DecodeSHUFPMask \<lparr>VectorNumElements = 8, ElementSizeInBits = 32\<rparr> 0x1B [] = Some (Inr Mask)
         \<and> length Mask = 8 \<and> Mask ! 6 = 1 + 8 + 4 \<and> Mask ! 6 = Mask ! 2 + 4)
   \<and> lane_shape \<lparr>VectorNumElements = 4, ElementSizeInBits = 64\<rparr>
   \<and> (\<exists>Mask. DecodePSHUFMask \<lparr>VectorNumElements = 4, ElementSizeInBits = 64\<rparr> 0x6 [] = Some (Inr Mask)
         \<and> length Mask = 4 \<and> Mask ! 1 = 1 \<and> Mask ! 3 = 0 + 2)"
proof -
  let ?A = "\<lparr>VectorNumElements = 8, ElementSizeInBits = 32\<rparr>"
  let ?B = "\<lparr>VectorNumElements = 4, ElementSizeInBits = 64\<rparr>"
  have A: "unat (getVectorNumElements ?A) = 8" "unat (getSizeInBits ?A div 128) = 2"
    "unat (getVectorNumElements ?A div (getSizeInBits ?A div 128)) = 4"
    by (simp_all add: getVectorNumElements_def getSizeInBits_def)
  have B: "unat (getVectorNumElements ?B) = 4" "unat (getSizeInBits ?B div 128) = 2"
    "unat (getVectorNumElements ?B div (getSizeInBits ?B div 128)) = 2"
    by (simp_all add: getVectorNumElements_def getSizeInBits_def)
  note TA = PSHUF_SHUFP_reload [OF lane_shape_8x32, of "0x1B" "[]", unfolded Let_def A]
  note TB = PSHUF_SHUFP_reload [OF lane_shape_4x64, of "0x6" "[]", unfolded Let_def B]
  obtain P where P: "DecodePSHUFMask ?A 0x1B [] = Some (Inr P)" "length P = length ([] :: int list) + 8"
    and Pn: "\<forall>l < 2. \<forall>p < 4. P ! (length ([] :: int list) + l * 4 + p) =
        int (unat (0x1B :: u32) div 4 ^ (if (4 :: nat) = 4 then p else l * 4 + p) mod 4 + l * 4)"
    and P4: "(4 :: nat) = 4 \<longrightarrow> (\<forall>l < 2. \<forall>p < 4.
        P ! (length ([] :: int list) + l * 4 + p) = P ! (length ([] :: int list) + p) + int (l * 4))"
    using TA [THEN conjunct1] by blast
  obtain S where S: "DecodeSHUFPMask ?A 0x1B [] = Some (Inr S)" "length S = length ([] :: int list) + 8"
    and Sn: "\<forall>l < 2. \<forall>p < 4. S ! (length ([] :: int list) + l * 4 + p) =
        int (unat (0x1B :: u32) div 4 ^ (if (4 :: nat) = 4 then p else l * 4 + p) mod 4
             + (if p < 4 div 2 then 0 else 8) + l * 4)"
    and S4: "(4 :: nat) = 4 \<longrightarrow> (\<forall>l < 2. \<forall>p < 4.
        S ! (length ([] :: int list) + l * 4 + p) = S ! (length ([] :: int list) + p) + int (l * 4))"
    using TA [THEN conjunct2] by blast
  obtain Q where Q: "DecodePSHUFMask ?B 0x6 [] = Some (Inr Q)" "length Q = length ([] :: int list) + 4"
    and Qn: "\<forall>l < 2. \<forall>p < 2. Q ! (length ([] :: int list) + l * 2 + p) =
        int (unat (0x6 :: u32) div 2 ^ (if (2 :: nat) = 4 then p else l * 2 + p) mod 2 + l * 2)"
    using TB [THEN conjunct1] by blast
  have p5: "P ! 5 = 2 + 4" using Pn [rule_format, of 1 1] by simp
  have p51: "P ! 5 = P ! 1 + 4" using P4 [rule_format, of 1 1] by simp
  have s6: "S ! 6 = 1 + 8 + 4" using Sn [rule_format, of 1 2] by simp
  have s62: "S ! 6 = S ! 2 + 4" using S4 [rule_format, of 1 2] by (simp del: add_2_eq_Suc add_2_eq_Suc')
  have q1: "Q ! 1 = 1" using Qn [rule_format, of 0 1] by simp
  have q3: "Q ! 3 = 0 + 2" using Qn [rule_format, of 1 1] by (simp add: numeral_3_eq_3)
  show ?thesis
    using lane_shape_8x32 lane_shape_4x64 A(3) P S Q p5 p51 s6 s62 q1 q3
    by (intro conjI exI [of _ P] exI [of _ S] exI [of _ Q]) simp_all
qed

section \<open>What a decoder does to the entries already in the container\<close>

lemma extends_refl: "extends M0 M0"
  by (simp add: extends_def)

lemma extends_append: "extends M0 M \<Longrightarrow> extends M0 (M @ xs)"
  by (auto simp: extends_def)

lemma extends_push: "extends M0 M \<Longrightarrow> extends M0 (push_back M x)"
  by (simp add: push_back_def extends_append)

lemma for_ne_extends:
  assumes "extends M0 M" and "\<And>i M. extends M0 M \<Longrightarrow> extends M0 (body i M)"
  shows "extends M0 (for_ne b e body M)"
  by (rule for_ne_inv [where P = "extends M0"]) (use assms in auto)

lemma for_ne_extends_snd:
  assumes "extends M0 (snd s)" and "\<And>i s. extends M0 (snd s) \<Longrightarrow> extends M0 (snd (body i s))"
  shows "extends M0 (snd (for_ne b e body s))"
  by (rule for_ne_inv [where P = "\<lambda>s. extends M0 (snd s)"]) (use assms in auto)

lemma for_step_extends:
  assumes "for_step l e step body M = Some M'" and "extends M0 M"
    and "\<And>l M M'. extends M0 M \<Longrightarrow> body l M = Some M' \<Longrightarrow> extends M0 M'"
  shows "extends M0 M'"
  by (rule for_step_inv [where P = "extends M0", OF assms(1,2)]) (use assms(3) in auto)

lemma for_step_extends_snd:
  assumes "for_step l e step body s = Some s'" and "extends M0 (snd s)"
    and "\<And>l s s'. extends M0 (snd s) \<Longrightarrow> body l s = Some s' \<Longrightarrow> extends M0 (snd s')"
  shows "extends M0 (snd s')"
  by (rule for_step_inv [where P = "\<lambda>s. extends M0 (snd s)", OF assms(1,2)]) (use assms(3) in auto)

lemma for_lt_extends:
  assumes run: "for_lt b e body M = Inr M'" and init: "extends M0 M"
    and step: "\<And>i M M'. extends M0 M \<Longrightarrow> body i M = Inr M' \<Longrightarrow> extends M0 M'"
  shows "extends M0 M'"
proof (cases "b \<le> e")
  case True
  show ?thesis
    by (rule for_lt_inv [where P = "\<lambda>_. extends M0", OF run True init]) (use step in auto)
next
  case False
  then have "for_lt b e body M = Inr M" by (subst for_lt.simps) simp
  then show ?thesis using run init by simp
qed

lemma DecodeMOVHLPSMask_extends: "extends M0 (DecodeMOVHLPSMask NElts M0)"
  unfolding DecodeMOVHLPSMask_def Let_def
  by (intro for_ne_extends extends_push extends_refl)

lemma DecodeMOVLHPSMask_extends: "extends M0 (DecodeMOVLHPSMask NElts M0)"
  unfolding DecodeMOVLHPSMask_def Let_def
  by (intro for_ne_extends extends_push extends_refl)

lemma DecodeVPERMMask_extends: "extends M0 (DecodeVPERMMask Imm M0)"
  unfolding DecodeVPERMMask_def
  by (intro for_ne_extends extends_push extends_refl)

lemma DecodeVPERM2X128Mask_extends: "extends M0 (DecodeVPERM2X128Mask VT Imm M0)"
  unfolding DecodeVPERM2X128Mask_def Let_def
  by (auto intro!: for_ne_extends extends_push extends_refl)

lemma DecodePALIGNRMask_extends:
  assumes "DecodePALIGNRMask VT Imm M0 = Some (Inr M)"
  shows "extends M0 M"
proof -
  obtain l e step body where run: "for_step l e step body M0 = Some M"
    and body: "\<And>l M. \<exists>b e' f. body l M = Some (for_ne b e' (\<lambda>i M. push_back M (f i)) M)"
    using assms unfolding DecodePALIGNRMask_def Let_def
    by (fastforce split: if_splits)
  show ?thesis
  proof (rule for_step_extends [OF run extends_refl])
    fix l M M' assume e: "extends M0 M" and b: "body l M = Some M'"
    obtain b' e' f where "body l M = Some (for_ne b' e' (\<lambda>i M. push_back M (f i)) M)"
      using body by blast
    then have "M' = for_ne b' e' (\<lambda>i M. push_back M (f i)) M" using b by simp
    then show "extends M0 M'" using e by (auto intro!: for_ne_extends extends_push)
  qed
qed

lemma push_pair_extends:
  "extends M0 (snd s) \<Longrightarrow> extends M0 (snd (case s of (a, M) \<Rightarrow> (f a, push_back M (g a))))"
  by (cases s) (simp add: extends_push)

lemma DecodePSHUFMask_extends:
  assumes "DecodePSHUFMask VT Imm M0 = Some (Inr M)"
  shows "extends M0 M"
proof -
  let ?NumElts = "getVectorNumElements VT"
  let ?NLE = "getVectorNumElements VT div (getSizeInBits VT div 128)"
  obtain s where run: "for_step 0 ?NumElts ?NLE (\<lambda>l (NewImm, ShuffleMask).
                  let (NewImm, ShuffleMask) =
                        for_ne 0 ?NLE (\<lambda>i (NewImm, ShuffleMask).
                          (NewImm div ?NLE, push_back ShuffleMask (sint (NewImm mod ?NLE + l))))
                          (NewImm, ShuffleMask)
                  in Some (if ?NLE = 4 then Imm else NewImm, ShuffleMask)) (Imm, M0) = Some s"
    and M: "M = snd s"
    using assms unfolding DecodePSHUFMask_def Let_def by (auto split: if_splits)
  have "extends M0 (snd s)"
  proof (rule for_step_extends_snd [OF run])
    show "extends M0 (snd (Imm, M0))" by (simp add: extends_refl)
  next
    fix l and s s' :: "u32 \<times> int list"
    assume e: "extends M0 (snd s)"
      and b: "(case s of (NewImm, ShuffleMask) \<Rightarrow>
                  let (NewImm, ShuffleMask) =
                        for_ne 0 ?NLE (\<lambda>i (NewImm, ShuffleMask).
                          (NewImm div ?NLE, push_back ShuffleMask (sint (NewImm mod ?NLE + l))))
                          (NewImm, ShuffleMask)
                  in Some (if ?NLE = 4 then Imm else NewImm, ShuffleMask)) = Some s'"
    have "extends M0 (snd (for_ne 0 ?NLE (\<lambda>i (NewImm, ShuffleMask).
                          (NewImm div ?NLE, push_back ShuffleMask (sint (NewImm mod ?NLE + l)))) s))"
      by (rule for_ne_extends_snd [OF e]) (rule push_pair_extends)
    then show "extends M0 (snd s')" using b by (auto split: prod.splits)
  qed
  then show ?thesis using M by simp
qed

lemma DecodeSHUFPMask_extends:
  assumes "DecodeSHUFPMask VT Imm M0 = Some (Inr M)"
  shows "extends M0 M"
proof -
  let ?NumElts = "getVectorNumElements VT"
  let ?NLE = "getVectorNumElements VT div (getSizeInBits VT div 128)"
  let ?inner = "\<lambda>l. for_step 0 (?NumElts * 2) ?NumElts (\<lambda>s (NewImm, ShuffleMask).
                       Some (for_ne 0 (?NLE div 2) (\<lambda>i (NewImm, ShuffleMask).
                         (NewImm div ?NLE,
                          push_back ShuffleMask (sint (NewImm mod ?NLE + s + l))))
                         (NewImm, ShuffleMask)))"
  obtain s where run: "for_step 0 ?NumElts ?NLE (\<lambda>l (NewImm, ShuffleMask).
                  Option.bind (?inner l (NewImm, ShuffleMask))
                    (\<lambda>(NewImm, ShuffleMask).
                       Some (if ?NLE = 4 then Imm else NewImm, ShuffleMask))) (Imm, M0) = Some s"
    and M: "M = snd s"
    using assms unfolding DecodeSHUFPMask_def Let_def by (auto split: if_splits)
  have "extends M0 (snd s)"
  proof (rule for_step_extends_snd [OF run])
    show "extends M0 (snd (Imm, M0))" by (simp add: extends_refl)
  next
    fix l and s s' :: "u32 \<times> int list"
    assume e: "extends M0 (snd s)"
      and b: "(case s of (NewImm, ShuffleMask) \<Rightarrow>
                  Option.bind (?inner l (NewImm, ShuffleMask))
                    (\<lambda>(NewImm, ShuffleMask).
                       Some (if ?NLE = 4 then Imm else NewImm, ShuffleMask))) = Some s'"
    obtain s1 where i: "?inner l s = Some s1" and s': "snd s' = snd s1"
      using b by (cases s) (auto simp: bind_eq_Some_conv)
    have "extends M0 (snd s1)"
    proof (rule for_step_extends_snd [OF i e])
      fix s2 and t t' :: "u32 \<times> int list"
      assume e2: "extends M0 (snd t)"
        and b2: "(case t of (NewImm, ShuffleMask) \<Rightarrow>
                       Some (for_ne 0 (?NLE div 2) (\<lambda>i (NewImm, ShuffleMask).
                         (NewImm div ?NLE,
                          push_back ShuffleMask (sint (NewImm mod ?NLE + s2 + l))))
                         (NewImm, ShuffleMask))) = Some t'"
      have "extends M0 (snd (for_ne 0 (?NLE div 2) (\<lambda>i (NewImm, ShuffleMask).
                         (NewImm div ?NLE,
                          push_back ShuffleMask (sint (NewImm mod ?NLE + s2 + l)))) t))"
        by (rule for_ne_extends_snd [OF e2]) (rule push_pair_extends)
      then show "extends M0 (snd t')" using b2 by (cases t) auto
    qed
    then show "extends M0 (snd s')" using s' by simp
  qed
  then show ?thesis using M by simp
qed

lemma DecodePSHUFHWMask_extends:
  assumes "DecodePSHUFHWMask VT Imm M0 = Some M"
  shows "extends M0 M"
proof (rule for_step_extends [OF assms [unfolded DecodePSHUFHWMask_def Let_def] extends_refl])
  fix l M1 M2
  assume e: "extends M0 M1"
    and b: "(case for_ne 4 8 (\<lambda>i (NewImm, ShuffleMask).
                  (drop_bit 2 NewImm, push_back ShuffleMask (sint (l + 4 + (NewImm AND 3)))))
                  (Imm, for_ne 0 4 (\<lambda>i ShuffleMask. push_back ShuffleMask (sint (l + i))) M1) of
              (NewImm, ShuffleMask) \<Rightarrow> Some ShuffleMask) = Some M2"
  have "extends M0 (for_ne 0 4 (\<lambda>i ShuffleMask. push_back ShuffleMask (sint (l + i))) M1)"
    by (intro for_ne_extends extends_push e)
  then have "extends M0 (snd (for_ne 4 8 (\<lambda>i (NewImm, ShuffleMask).
                  (drop_bit 2 NewImm, push_back ShuffleMask (sint (l + 4 + (NewImm AND 3)))))
                  (Imm, for_ne 0 4 (\<lambda>i ShuffleMask. push_back ShuffleMask (sint (l + i))) M1)))"
    by (intro for_ne_extends_snd push_pair_extends) simp
  then show "extends M0 M2" using b by (auto split: prod.splits)
qed

lemma DecodePSHUFLWMask_extends:
  assumes "DecodePSHUFLWMask VT Imm M0 = Some M"
  shows "extends M0 M"
proof (rule for_step_extends [OF assms [unfolded DecodePSHUFLWMask_def Let_def] extends_refl])
  fix l M1 M2
  assume e: "extends M0 M1"
    and b: "(case for_ne 0 4 (\<lambda>i (NewImm, ShuffleMask).
                  (drop_bit 2 NewImm, push_back ShuffleMask (sint (l + (NewImm AND 3)))))
                  (Imm, M1) of
              (NewImm, ShuffleMask) \<Rightarrow>
                Some (for_ne 4 8 (\<lambda>i ShuffleMask. push_back ShuffleMask (sint (l + i))) ShuffleMask))
            = Some M2"
  have "extends M0 (snd (for_ne 0 4 (\<lambda>i (NewImm, ShuffleMask).
                  (drop_bit 2 NewImm, push_back ShuffleMask (sint (l + (NewImm AND 3)))))
                  (Imm, M1)))"
    by (intro for_ne_extends_snd push_pair_extends) (simp add: e)
  then have "extends M0 (for_ne 4 8 (\<lambda>i ShuffleMask. push_back ShuffleMask (sint (l + i)))
      (snd (for_ne 0 4 (\<lambda>i (NewImm, ShuffleMask).
                  (drop_bit 2 NewImm, push_back ShuffleMask (sint (l + (NewImm AND 3)))))
                  (Imm, M1))))"
    by (intro for_ne_extends extends_push)
  then show "extends M0 M2" using b by (auto split: prod.splits)
qed

lemma DecodeUNPCKHMask_extends:
  assumes "DecodeUNPCKHMask VT M0 = Some M"
  shows "extends M0 M"
  by (rule for_step_extends [OF assms [unfolded DecodeUNPCKHMask_def Let_def] extends_refl])
     (auto intro!: for_ne_extends extends_push)

lemma DecodeUNPCKLMask_extends:
  assumes "DecodeUNPCKLMask VT M0 = Some M"
  shows "extends M0 M"
  by (rule for_step_extends [OF assms [unfolded DecodeUNPCKLMask_def Let_def] extends_refl])
     (auto intro!: for_ne_extends extends_push)

lemma DecodePSHUFBMask_C_extends:
  assumes "DecodePSHUFBMask_C SZ C M0 = Inr M"
  shows "extends M0 M"
proof -
  have run: "for_lt 0 (sint (TypeNumElements C)) (\<lambda>i ShuffleMask.
                 let Base = (if i < 16 then 0 else 16 :: int);
                     Element = getElementAsInteger C (nat i)
                 in if Element AND push_bit 7 1 \<noteq> 0
                    then Inr (push_back ShuffleMask SZ)
                    else
                      let Index = sint (ucast (word_of_int Base + Element) :: u32)
                      in if \<not> (Index \<ge> 0 \<and> Index < sint (TypeNumElements C)) then Inl AssertionFailed
                         else Inr (push_back ShuffleMask Index)) M0 = Inr M"
    using assms unfolding DecodePSHUFBMask_C_def Let_def by (auto split: if_splits)
  show ?thesis
    by (rule for_lt_extends [OF run extends_refl])
       (auto simp: Let_def intro: extends_push split: if_splits)
qed

lemma DecodePSHUFBMask_RawMask_extends:
  assumes "DecodePSHUFBMask_RawMask SZ RawMask M0 = Inr M"
  shows "extends M0 M"
  by (rule for_lt_extends [OF assms [unfolded DecodePSHUFBMask_RawMask_def Let_def] extends_refl])
     (auto simp: Let_def intro: extends_push split: if_splits)

lemma DecodeBLENDMask_extends:
  assumes "DecodeBLENDMask VT Imm M0 = Inr M"
  shows "extends M0 M"
  by (rule for_lt_extends [OF assms [unfolded DecodeBLENDMask_def Let_def] extends_refl])
     (auto simp: Let_def intro: extends_push split: if_splits)

lemma unat_and3_lt: "unat ((x :: u32) AND 3) < 4"
  using and3_cases [of x] by auto

lemma DecodeINSERTPSMask_absolute:
  "length (DecodeINSERTPSMask SZ Imm M0) = length M0 + 4
   \<and> (\<forall>q < length M0 + 4.
        DecodeINSERTPSMask SZ Imm M0 ! q =
          (if q < 4 \<and> bit (Imm AND 15) q then SZ
           else if q = unat (drop_bit 4 Imm AND 3) then 4 + int (unat (drop_bit 6 Imm AND 3))
           else (M0 @ [0, 1, 2, 3]) ! q))"
proof (intro conjI allI impI)
  show "length (DecodeINSERTPSMask SZ Imm M0) = length M0 + 4"
    by (simp add: DecodeINSERTPSMask_def Let_def push_back_def)
next
  fix q assume q: "q < length M0 + 4"
  define Mi where "Mi = M0 @ [0, 1, 2, 3 :: int]"
  define d where "d = unat (drop_bit 4 Imm AND 3)"
  define v where "v = 4 + int (unat (drop_bit 6 Imm AND 3))"
  have sv: "sint (4 + (drop_bit 6 Imm AND 3)) = v"
    using and3_cases [of "drop_bit 6 Imm"] unfolding v_def by (elim disjE) simp_all
  have lq: "q < length Mi" using q by (simp add: Mi_def)
  have R: "DecodeINSERTPSMask SZ Imm M0 =
      (let M1 = Mi[d := v];
           M2 = (if bit (Imm AND 15) 0 then M1[0 := SZ] else M1);
           M3 = (if bit (Imm AND 15) 1 then M2[1 := SZ] else M2);
           M4 = (if bit (Imm AND 15) 2 then M3[2 := SZ] else M3)
       in (if bit (Imm AND 15) 3 then M4[3 := SZ] else M4))"
    unfolding DecodeINSERTPSMask_def Let_def push_back_def and_pow2_test sv Mi_def d_def
    by simp
  consider "q = 0" | "q = 1" | "q = 2" | "q = 3" | "4 \<le> q" by linarith
  then have "DecodeINSERTPSMask SZ Imm M0 ! q =
          (if q < 4 \<and> bit (Imm AND 15) q then SZ else if q = d then v else Mi ! q)"
    unfolding R Let_def using lq by cases (auto simp: nth_list_update)
  then show "DecodeINSERTPSMask SZ Imm M0 ! q =
          (if q < 4 \<and> bit (Imm AND 15) q then SZ
           else if q = unat (drop_bit 4 Imm AND 3) then 4 + int (unat (drop_bit 6 Imm AND 3))
           else (M0 @ [0, 1, 2, 3]) ! q)"
    by (simp add: d_def v_def Mi_def)
qed

lemma DecodeINSERTPSMask_nonempty:
  assumes SZ: "SZ < 0" and ne: "M0 \<noteq> []"
  shows "DecodeINSERTPSMask SZ Imm M0 \<noteq> M0 @ DecodeINSERTPSMask SZ Imm []"
proof
  assume eq: "DecodeINSERTPSMask SZ Imm M0 = M0 @ DecodeINSERTPSMask SZ Imm []"
  define z where "z = Imm AND 15"
  define d where "d = unat (drop_bit 4 Imm AND 3)"
  define v where "v = 4 + int (unat (drop_bit 6 Imm AND 3))"
  define n where "n = length M0"
  have n: "0 < n" using ne by (simp add: n_def)
  have d: "d < 4" unfolding d_def by (rule unat_and3_lt)
  have v: "4 \<le> v" by (simp add: v_def)
  have A: "DecodeINSERTPSMask SZ Imm M0 ! q =
          (if q < 4 \<and> bit z q then SZ else if q = d then v else (M0 @ [0, 1, 2, 3]) ! q)"
    if "q < n + 4" for q
    using DecodeINSERTPSMask_absolute [of SZ Imm M0] that by (simp add: z_def d_def v_def n_def)
  have E: "DecodeINSERTPSMask SZ Imm [] ! i = (if bit z i then SZ else if i = d then v else int i)"
    if "i < 4" for i
  proof -
    have "i = 0 \<or> i = 1 \<or> i = 2 \<or> i = 3" using that by linarith
    then show ?thesis
      using DecodeINSERTPSMask_absolute [of SZ Imm "[]"] that
      by (auto simp: z_def d_def v_def)
  qed
  have L: "length (DecodeINSERTPSMask SZ Imm []) = 4"
    using DecodeINSERTPSMask_absolute [of SZ Imm "[]"] by simp
  have B: "DecodeINSERTPSMask SZ Imm M0 ! (n + i) = DecodeINSERTPSMask SZ Imm [] ! i" if "i < 4" for i
    unfolding eq n_def by simp
  have fresh: "(M0 @ [0, 1, 2, 3 :: int]) ! (n + i) = int i" if "i < 4" for i
  proof -
    have "i = 0 \<or> i = 1 \<or> i = 2 \<or> i = 3" using that by linarith
    then show ?thesis by (auto simp: n_def nth_append)
  qed
  text \<open>Position \<open>n + j\<close> for the highest set bit \<open>j\<close> of \<open>z\<close>, or \<open>n + d\<close> when none is set.\<close>
  have top: "False" if j: "j < 4" and bj: "bit z j" and hi: "\<And>k. j < k \<Longrightarrow> k < 4 \<Longrightarrow> \<not> bit z k" for j
  proof -
    have nb: "\<not> (n + j < 4 \<and> bit z (n + j))" using hi [of "n + j"] n by auto
    have "DecodeINSERTPSMask SZ Imm M0 ! (n + j) = (if n + j = d then v else int j)"
      using A [of "n + j"] j nb fresh [OF j] by simp
    moreover have "DecodeINSERTPSMask SZ Imm [] ! j = SZ" using E [OF j] bj by simp
    ultimately show False using B [OF j] SZ v by (auto split: if_splits)
  qed
  show False
  proof (cases "bit z 3")
    case True
    then show ?thesis using top [of 3] by simp
  next
    case b3: False
    show ?thesis
    proof (cases "bit z 2")
      case True
      have "\<And>k. 2 < k \<Longrightarrow> k < 4 \<Longrightarrow> \<not> bit z k"
      proof -
        fix k :: nat assume "2 < k" "k < 4"
        then have "k = 3" by simp
        then show "\<not> bit z k" using b3 by simp
      qed
      then show ?thesis using top [of 2] True by simp
    next
      case b2: False
      show ?thesis
      proof (cases "bit z 1")
        case True
        have "\<And>k. 1 < k \<Longrightarrow> k < 4 \<Longrightarrow> \<not> bit z k"
        proof -
          fix k :: nat assume "1 < k" "k < 4"
          then have "k = 2 \<or> k = 3" by auto
          then show "\<not> bit z k" using b2 b3 by auto
        qed
        then show ?thesis using top [of 1] True by simp
      next
        case b1: False
        show ?thesis
        proof (cases "bit z 0")
          case True
          have "\<And>k. 0 < k \<Longrightarrow> k < 4 \<Longrightarrow> \<not> bit z k"
          proof -
            fix k :: nat assume "0 < k" "k < 4"
            then have "k = 1 \<or> k = 2 \<or> k = 3" by auto
            then show "\<not> bit z k" using b1 b2 b3 by auto
          qed
          then show ?thesis using top [of 0] True by simp
        next
          case b0: False
          have nbd: "\<not> bit z d"
          proof -
            have "d = 0 \<or> d = 1 \<or> d = 2 \<or> d = 3" using d by linarith
            then show ?thesis using b0 b1 b2 b3 by auto
          qed
          have nb: "\<not> (n + d < 4 \<and> bit z (n + d))"
          proof -
            { assume "n + d < 4"
              then have "n + d = 0 \<or> n + d = 1 \<or> n + d = 2 \<or> n + d = 3" by linarith
              then have "\<not> bit z (n + d)" using b0 b1 b2 b3 by auto }
            then show ?thesis by blast
          qed
          have "DecodeINSERTPSMask SZ Imm M0 ! (n + d) = int d"
            using A [of "n + d"] d nb fresh [OF d] n by simp
          moreover have "DecodeINSERTPSMask SZ Imm [] ! d = v" using E [OF d] nbd by simp
          ultimately show ?thesis using B [OF d] d v by simp
        qed
      qed
    qed
  qed
qed

lemma DecodeINSERTPSMask_long:
  assumes "4 \<le> length M0"
  shows "drop (length M0) (DecodeINSERTPSMask SZ Imm M0) = [0, 1, 2, 3]
     \<and> (\<forall>q < length M0. DecodeINSERTPSMask SZ Imm M0 ! q =
          (if q < 4 \<and> bit (Imm AND 15) q then SZ
           else if q = unat (drop_bit 4 Imm AND 3) then 4 + int (unat (drop_bit 6 Imm AND 3))
           else M0 ! q))"
proof (intro conjI allI impI)
  note A = DecodeINSERTPSMask_absolute [of SZ Imm M0]
  have d: "unat (drop_bit 4 Imm AND 3) < 4" by (rule unat_and3_lt)
  show "drop (length M0) (DecodeINSERTPSMask SZ Imm M0) = [0, 1, 2, 3]"
  proof (rule nth_equalityI)
    show "length (drop (length M0) (DecodeINSERTPSMask SZ Imm M0)) = length [0, 1, 2, 3 :: int]"
      using A by simp
  next
    fix i assume "i < length (drop (length M0) (DecodeINSERTPSMask SZ Imm M0))"
    then have i: "i < 4" using A by simp
    then have q: "length M0 + i < length M0 + 4" by simp
    have "DecodeINSERTPSMask SZ Imm M0 ! (length M0 + i) = (M0 @ [0, 1, 2, 3]) ! (length M0 + i)"
      using A [THEN conjunct2, rule_format, OF q] assms d by simp
    then show "drop (length M0) (DecodeINSERTPSMask SZ Imm M0) ! i = [0, 1, 2, 3] ! i"
      using A i by (simp add: nth_append)
  qed
next
  fix q assume q: "q < length M0"
  then have "q < length M0 + 4" by simp
  then show "DecodeINSERTPSMask SZ Imm M0 ! q =
          (if q < 4 \<and> bit (Imm AND 15) q then SZ
           else if q = unat (drop_bit 4 Imm AND 3) then 4 + int (unat (drop_bit 6 Imm AND 3))
           else M0 ! q)"
    using DecodeINSERTPSMask_absolute [of SZ Imm M0, THEN conjunct2, rule_format, of q] q
    by (simp add: nth_append)
qed

lemma run_PALIGNR:
  "DecodePALIGNRMask \<lparr>VectorNumElements = 8, ElementSizeInBits = 16\<rparr> 0x2 [7]
     = Some (Inr [7, 4, 5, 6, 7, 8, 9, 10, 11])"
  by code_simp

lemma run_PSHUF:
  "DecodePSHUFMask \<lparr>VectorNumElements = 8, ElementSizeInBits = 16\<rparr> 0x1B [7]
     = Some (Inr [7, 3, 3, 0, 0, 0, 0, 0, 0])"
  by code_simp

lemma run_PSHUFHW:
  "DecodePSHUFHWMask \<lparr>VectorNumElements = 8, ElementSizeInBits = 16\<rparr> 0x1B [7]
     = Some [7, 0, 1, 2, 3, 7, 6, 5, 4]"
  by code_simp

lemma run_PSHUFLW:
  "DecodePSHUFLWMask \<lparr>VectorNumElements = 8, ElementSizeInBits = 16\<rparr> 0x1B [7]
     = Some [7, 3, 2, 1, 0, 4, 5, 6, 7]"
  by code_simp

lemma run_SHUFP:
  "DecodeSHUFPMask \<lparr>VectorNumElements = 8, ElementSizeInBits = 16\<rparr> 0x1B [7]
     = Some (Inr [7, 3, 3, 0, 0, 8, 8, 8, 8])"
  by code_simp

lemma run_UNPCKH:
  "DecodeUNPCKHMask \<lparr>VectorNumElements = 8, ElementSizeInBits = 16\<rparr> [7]
     = Some [7, 4, 12, 5, 13, 6, 14, 7, 15]"
  by code_simp

lemma run_UNPCKL:
  "DecodeUNPCKLMask \<lparr>VectorNumElements = 8, ElementSizeInBits = 16\<rparr> [7]
     = Some [7, 0, 8, 1, 9, 2, 10, 3, 11]"
  by code_simp

lemma run_PSHUFB_C:
  "DecodePSHUFBMask_C (- 1) \<lparr>TypeIsVector = True, TypeElementBits = 8, TypeNumElements = 16, ElementData = 0x85 # replicate 15 3\<rparr> [7]
     = Inr [7, - 1, 3, 3, 3, 3, 3, 3, 3, 3, 3, 3, 3, 3, 3, 3, 3]"
  by code_simp

lemma run_PSHUFB_RawMask:
  "DecodePSHUFBMask_RawMask (- 1) (0x85 # replicate 15 3) [7]
     = Inr [7, - 1, 3, 3, 3, 3, 3, 3, 3, 3, 3, 3, 3, 3, 3, 3, 3]"
  by code_simp

lemma run_BLEND:
  "DecodeBLENDMask \<lparr>VectorNumElements = 8, ElementSizeInBits = 16\<rparr> 0x1B [7]
     = Inr [7, 8, 9, 2, 11, 12, 5, 6, 7]"
  by code_simp

text \<open>
  C10, as the code has it. Every decoder but the insert decoder returns the container it was
  given with entries appended, whenever it returns. The insert decoder appends \<open>0, 1, 2, 3\<close>
  and then writes at the absolute positions \<open>CountD\<close> and \<open>k\<close> (for each set bit \<open>k\<close> of
  \<open>ZMask\<close>) of the container, all of them among positions 0 to 3. With a negative sentinel,
  its result is the given container followed by its result on the empty container only if
  the given container is empty. When the container holds at least four entries the writes
  all land on entries it held before and the appended \<open>0, 1, 2, 3\<close> stay as they are; when
  it holds fewer, the writes land on whatever is at positions 0 to 3, appended entries
  included.
\<close>

theorem decoders_append_only:
  "extends M0 (DecodeMOVHLPSMask NElts M0)
   \<and> extends M0 (DecodeMOVLHPSMask NElts M0)
   \<and> (DecodePALIGNRMask VT Imm M0 = Some (Inr M) \<longrightarrow> extends M0 M)
   \<and> (DecodePSHUFMask VT Imm M0 = Some (Inr M) \<longrightarrow> extends M0 M)
   \<and> (DecodePSHUFHWMask VT Imm M0 = Some M \<longrightarrow> extends M0 M)
   \<and> (DecodePSHUFLWMask VT Imm M0 = Some M \<longrightarrow> extends M0 M)
   \<and> (DecodeSHUFPMask VT Imm M0 = Some (Inr M) \<longrightarrow> extends M0 M)
   \<and> (DecodeUNPCKHMask VT M0 = Some M \<longrightarrow> extends M0 M)
   \<and> (DecodeUNPCKLMask VT M0 = Some M \<longrightarrow> extends M0 M)
   \<and> extends M0 (DecodeVPERM2X128Mask VT Imm M0)
   \<and> (DecodePSHUFBMask_C SZ C M0 = Inr M \<longrightarrow> extends M0 M)
   \<and> (DecodePSHUFBMask_RawMask SZ RawMask M0 = Inr M \<longrightarrow> extends M0 M)
   \<and> (DecodeBLENDMask VT Imm M0 = Inr M \<longrightarrow> extends M0 M)
   \<and> extends M0 (DecodeVPERMMask Imm M0)
   \<and> length (DecodeINSERTPSMask SZ Imm M0) = length M0 + 4
   \<and> (\<forall>q < length M0 + 4.
        DecodeINSERTPSMask SZ Imm M0 ! q =
          (if q < 4 \<and> bit (Imm AND 15) q then SZ
           else if q = unat (drop_bit 4 Imm AND 3) then 4 + int (unat (drop_bit 6 Imm AND 3))
           else (M0 @ [0, 1, 2, 3]) ! q))
   \<and> (SZ < 0 \<longrightarrow>
        (DecodeINSERTPSMask SZ Imm M0 = M0 @ DecodeINSERTPSMask SZ Imm [] \<longleftrightarrow> M0 = []))
   \<and> (4 \<le> length M0 \<longrightarrow>
        drop (length M0) (DecodeINSERTPSMask SZ Imm M0) = [0, 1, 2, 3]
        \<and> (\<forall>q < length M0. DecodeINSERTPSMask SZ Imm M0 ! q =
              (if q < 4 \<and> bit (Imm AND 15) q then SZ
               else if q = unat (drop_bit 4 Imm AND 3) then 4 + int (unat (drop_bit 6 Imm AND 3))
               else M0 ! q)))"
proof -
  have ins: "SZ < 0 \<Longrightarrow>
      (DecodeINSERTPSMask SZ Imm M0 = M0 @ DecodeINSERTPSMask SZ Imm [] \<longleftrightarrow> M0 = [])"
    using DecodeINSERTPSMask_nonempty [of SZ M0 Imm] by auto
  show ?thesis
    using DecodeMOVHLPSMask_extends [of M0 NElts] DecodeMOVLHPSMask_extends [of M0 NElts]
      DecodePALIGNRMask_extends [of VT Imm M0 M] DecodePSHUFMask_extends [of VT Imm M0 M]
      DecodePSHUFHWMask_extends [of VT Imm M0 M] DecodePSHUFLWMask_extends [of VT Imm M0 M]
      DecodeSHUFPMask_extends [of VT Imm M0 M] DecodeUNPCKHMask_extends [of VT M0 M]
      DecodeUNPCKLMask_extends [of VT M0 M] DecodeVPERM2X128Mask_extends [of M0 VT Imm]
      DecodePSHUFBMask_C_extends [of SZ C M0 M] DecodePSHUFBMask_RawMask_extends [of SZ RawMask M0 M]
      DecodeBLENDMask_extends [of VT Imm M0 M] DecodeVPERMMask_extends [of M0 Imm]
      DecodeINSERTPSMask_absolute [of SZ Imm M0] DecodeINSERTPSMask_long [of M0 SZ Imm] ins
    by blast
qed

theorem decoders_append_only_witness:
  "DecodePALIGNRMask \<lparr>VectorNumElements = 8, ElementSizeInBits = 16\<rparr> 0x2 [7]
     = Some (Inr [7, 4, 5, 6, 7, 8, 9, 10, 11])
   \<and> extends [7] [7, 4, 5, 6, 7, 8, 9, 10, 11]
   \<and> DecodePSHUFMask \<lparr>VectorNumElements = 8, ElementSizeInBits = 16\<rparr> 0x1B [7]
     = Some (Inr [7, 3, 3, 0, 0, 0, 0, 0, 0])
   \<and> extends [7] [7, 3, 3, 0, 0, 0, 0, 0, 0]
   \<and> DecodePSHUFHWMask \<lparr>VectorNumElements = 8, ElementSizeInBits = 16\<rparr> 0x1B [7]
     = Some [7, 0, 1, 2, 3, 7, 6, 5, 4]
   \<and> extends [7] [7, 0, 1, 2, 3, 7, 6, 5, 4]
   \<and> DecodePSHUFLWMask \<lparr>VectorNumElements = 8, ElementSizeInBits = 16\<rparr> 0x1B [7]
     = Some [7, 3, 2, 1, 0, 4, 5, 6, 7]
   \<and> extends [7] [7, 3, 2, 1, 0, 4, 5, 6, 7]
   \<and> DecodeSHUFPMask \<lparr>VectorNumElements = 8, ElementSizeInBits = 16\<rparr> 0x1B [7]
     = Some (Inr [7, 3, 3, 0, 0, 8, 8, 8, 8])
   \<and> extends [7] [7, 3, 3, 0, 0, 8, 8, 8, 8]
   \<and> DecodeUNPCKHMask \<lparr>VectorNumElements = 8, ElementSizeInBits = 16\<rparr> [7]
     = Some [7, 4, 12, 5, 13, 6, 14, 7, 15]
   \<and> extends [7] [7, 4, 12, 5, 13, 6, 14, 7, 15]
   \<and> DecodeUNPCKLMask \<lparr>VectorNumElements = 8, ElementSizeInBits = 16\<rparr> [7]
     = Some [7, 0, 8, 1, 9, 2, 10, 3, 11]
   \<and> extends [7] [7, 0, 8, 1, 9, 2, 10, 3, 11]
   \<and> DecodePSHUFBMask_C (- 1) \<lparr>TypeIsVector = True, TypeElementBits = 8, TypeNumElements = 16, ElementData = 0x85 # replicate 15 3\<rparr> [7]
     = Inr [7, - 1, 3, 3, 3, 3, 3, 3, 3, 3, 3, 3, 3, 3, 3, 3, 3]
   \<and> extends [7] [7, - 1, 3, 3, 3, 3, 3, 3, 3, 3, 3, 3, 3, 3, 3, 3, 3]
   \<and> DecodePSHUFBMask_RawMask (- 1) (0x85 # replicate 15 3) [7]
     = Inr [7, - 1, 3, 3, 3, 3, 3, 3, 3, 3, 3, 3, 3, 3, 3, 3, 3]
   \<and> extends [7] [7, - 1, 3, 3, 3, 3, 3, 3, 3, 3, 3, 3, 3, 3, 3, 3, 3]
   \<and> DecodeBLENDMask \<lparr>VectorNumElements = 8, ElementSizeInBits = 16\<rparr> 0x1B [7]
     = Inr [7, 8, 9, 2, 11, 12, 5, 6, 7]
   \<and> extends [7] [7, 8, 9, 2, 11, 12, 5, 6, 7]
   \<and> (- 1 :: int) < 0
   \<and> DecodeINSERTPSMask (- 1) 0x1B [] = [- 1, - 1, 2, - 1]
   \<and> 4 \<le> length [9, 8, 7, 6, 5 :: int]
   \<and> DecodeINSERTPSMask (- 1) 0x1B [9, 8, 7, 6, 5] = [- 1, - 1, 7, - 1, 5, 0, 1, 2, 3]
   \<and> drop (length [9, 8, 7, 6, 5 :: int]) (DecodeINSERTPSMask (- 1) 0x1B [9, 8, 7, 6, 5]) = [0, 1, 2, 3]
   \<and> DecodeINSERTPSMask (- 1) 0x1B [9, 8, 7, 6, 5] \<noteq> [9, 8, 7, 6, 5] @ DecodeINSERTPSMask (- 1) 0x1B []"
proof -
  have e_PALIGNR: "extends [7] [7, 4, 5, 6, 7, 8, 9, 10, 11]"
    using decoders_append_only [where ?M0.0 = "[7]" and VT = "\<lparr>VectorNumElements = 8, ElementSizeInBits = 16\<rparr>" and M = "[7, 4, 5, 6, 7, 8, 9, 10, 11]"
        and Imm = "0x2" and SZ = "- 1" and C = "\<lparr>TypeIsVector = True, TypeElementBits = 8, TypeNumElements = 16, ElementData = 0x85 # replicate 15 3\<rparr>" and RawMask = "0x85 # replicate 15 3"]
      run_PALIGNR by blast
  have e_PSHUF: "extends [7] [7, 3, 3, 0, 0, 0, 0, 0, 0]"
    using decoders_append_only [where ?M0.0 = "[7]" and VT = "\<lparr>VectorNumElements = 8, ElementSizeInBits = 16\<rparr>" and M = "[7, 3, 3, 0, 0, 0, 0, 0, 0]"
        and Imm = "0x1B" and SZ = "- 1" and C = "\<lparr>TypeIsVector = True, TypeElementBits = 8, TypeNumElements = 16, ElementData = 0x85 # replicate 15 3\<rparr>" and RawMask = "0x85 # replicate 15 3"]
      run_PSHUF by blast
  have e_PSHUFHW: "extends [7] [7, 0, 1, 2, 3, 7, 6, 5, 4]"
    using decoders_append_only [where ?M0.0 = "[7]" and VT = "\<lparr>VectorNumElements = 8, ElementSizeInBits = 16\<rparr>" and M = "[7, 0, 1, 2, 3, 7, 6, 5, 4]"
        and Imm = "0x1B" and SZ = "- 1" and C = "\<lparr>TypeIsVector = True, TypeElementBits = 8, TypeNumElements = 16, ElementData = 0x85 # replicate 15 3\<rparr>" and RawMask = "0x85 # replicate 15 3"]
      run_PSHUFHW by blast
  have e_PSHUFLW: "extends [7] [7, 3, 2, 1, 0, 4, 5, 6, 7]"
    using decoders_append_only [where ?M0.0 = "[7]" and VT = "\<lparr>VectorNumElements = 8, ElementSizeInBits = 16\<rparr>" and M = "[7, 3, 2, 1, 0, 4, 5, 6, 7]"
        and Imm = "0x1B" and SZ = "- 1" and C = "\<lparr>TypeIsVector = True, TypeElementBits = 8, TypeNumElements = 16, ElementData = 0x85 # replicate 15 3\<rparr>" and RawMask = "0x85 # replicate 15 3"]
      run_PSHUFLW by blast
  have e_SHUFP: "extends [7] [7, 3, 3, 0, 0, 8, 8, 8, 8]"
    using decoders_append_only [where ?M0.0 = "[7]" and VT = "\<lparr>VectorNumElements = 8, ElementSizeInBits = 16\<rparr>" and M = "[7, 3, 3, 0, 0, 8, 8, 8, 8]"
        and Imm = "0x1B" and SZ = "- 1" and C = "\<lparr>TypeIsVector = True, TypeElementBits = 8, TypeNumElements = 16, ElementData = 0x85 # replicate 15 3\<rparr>" and RawMask = "0x85 # replicate 15 3"]
      run_SHUFP by blast
  have e_UNPCKH: "extends [7] [7, 4, 12, 5, 13, 6, 14, 7, 15]"
    using decoders_append_only [where ?M0.0 = "[7]" and VT = "\<lparr>VectorNumElements = 8, ElementSizeInBits = 16\<rparr>" and M = "[7, 4, 12, 5, 13, 6, 14, 7, 15]"
        and Imm = "0x1B" and SZ = "- 1" and C = "\<lparr>TypeIsVector = True, TypeElementBits = 8, TypeNumElements = 16, ElementData = 0x85 # replicate 15 3\<rparr>" and RawMask = "0x85 # replicate 15 3"]
      run_UNPCKH by blast
  have e_UNPCKL: "extends [7] [7, 0, 8, 1, 9, 2, 10, 3, 11]"
    using decoders_append_only [where ?M0.0 = "[7]" and VT = "\<lparr>VectorNumElements = 8, ElementSizeInBits = 16\<rparr>" and M = "[7, 0, 8, 1, 9, 2, 10, 3, 11]"
        and Imm = "0x1B" and SZ = "- 1" and C = "\<lparr>TypeIsVector = True, TypeElementBits = 8, TypeNumElements = 16, ElementData = 0x85 # replicate 15 3\<rparr>" and RawMask = "0x85 # replicate 15 3"]
      run_UNPCKL by blast
  have e_PSHUFB_C: "extends [7] [7, - 1, 3, 3, 3, 3, 3, 3, 3, 3, 3, 3, 3, 3, 3, 3, 3]"
    using decoders_append_only [where ?M0.0 = "[7]" and VT = "\<lparr>VectorNumElements = 8, ElementSizeInBits = 16\<rparr>" and M = "[7, - 1, 3, 3, 3, 3, 3, 3, 3, 3, 3, 3, 3, 3, 3, 3, 3]"
        and Imm = "0x1B" and SZ = "- 1" and C = "\<lparr>TypeIsVector = True, TypeElementBits = 8, TypeNumElements = 16, ElementData = 0x85 # replicate 15 3\<rparr>" and RawMask = "0x85 # replicate 15 3"]
      run_PSHUFB_C by blast
  have e_PSHUFB_RawMask: "extends [7] [7, - 1, 3, 3, 3, 3, 3, 3, 3, 3, 3, 3, 3, 3, 3, 3, 3]"
    using decoders_append_only [where ?M0.0 = "[7]" and VT = "\<lparr>VectorNumElements = 8, ElementSizeInBits = 16\<rparr>" and M = "[7, - 1, 3, 3, 3, 3, 3, 3, 3, 3, 3, 3, 3, 3, 3, 3, 3]"
        and Imm = "0x1B" and SZ = "- 1" and C = "\<lparr>TypeIsVector = True, TypeElementBits = 8, TypeNumElements = 16, ElementData = 0x85 # replicate 15 3\<rparr>" and RawMask = "0x85 # replicate 15 3"]
      run_PSHUFB_RawMask by blast
  have e_BLEND: "extends [7] [7, 8, 9, 2, 11, 12, 5, 6, 7]"
    using decoders_append_only [where ?M0.0 = "[7]" and VT = "\<lparr>VectorNumElements = 8, ElementSizeInBits = 16\<rparr>" and M = "[7, 8, 9, 2, 11, 12, 5, 6, 7]"
        and Imm = "0x1B" and SZ = "- 1" and C = "\<lparr>TypeIsVector = True, TypeElementBits = 8, TypeNumElements = 16, ElementData = 0x85 # replicate 15 3\<rparr>" and RawMask = "0x85 # replicate 15 3"]
      run_BLEND by blast
  note I = decoders_append_only [where ?M0.0 = "[9, 8, 7, 6, 5]" and Imm = "0x1B" and SZ = "- 1"]
  have d: "drop (length [9, 8, 7, 6, 5 :: int]) (DecodeINSERTPSMask (- 1) 0x1B [9, 8, 7, 6, 5]) = [0, 1, 2, 3]"
    using I by simp
  have ne: "DecodeINSERTPSMask (- 1) 0x1B [9, 8, 7, 6, 5] \<noteq> [9, 8, 7, 6, 5] @ DecodeINSERTPSMask (- 1) 0x1B []"
    using I by simp
  have v0: "DecodeINSERTPSMask (- 1) 0x1B [] = [- 1, - 1, 2, - 1]"
    and v5: "DecodeINSERTPSMask (- 1) 0x1B [9, 8, 7, 6, 5] = [- 1, - 1, 7, - 1, 5, 0, 1, 2, 3]"
    by (simp_all add: DecodeINSERTPSMask_def push_back_def)
  show ?thesis
    by (intro conjI)
       (simp_all only: run_PALIGNR e_PALIGNR run_PSHUF e_PSHUF run_PSHUFHW e_PSHUFHW run_PSHUFLW e_PSHUFLW run_SHUFP e_SHUFP run_UNPCKH e_UNPCKH run_UNPCKL e_UNPCKL run_PSHUFB_C e_PSHUFB_C run_PSHUFB_RawMask e_PSHUFB_RawMask run_BLEND e_BLEND d ne v0 v5, simp_all)
qed

text \<open>
  The container \<open>[9]\<close> and the immediate \<open>0x10\<close> (\<open>CountD = 1\<close>): the write lands on
  position 1, an appended entry; the entry the container held is as it was.
\<close>

theorem DecodeINSERTPSMask_short_container_counterexample:
  "DecodeINSERTPSMask (- 1) 0x10 [9] = [9, 4, 1, 2, 3]
   \<and> take (length [9 :: int]) [9, 4, 1, 2, 3 :: int] = [9]
   \<and> drop (length [9 :: int]) [9, 4, 1, 2, 3 :: int] \<noteq> [0, 1, 2, 3]"
  by (simp add: DecodeINSERTPSMask_def push_back_def)

section \<open>The index range of the decoded masks\<close>





















































section \<open>When the byte-table decoders return, and what\<close>

lemma all_from_split:
  fixes a b :: nat
  assumes "a < b"
  shows "(\<forall>k. a \<le> k \<and> k < b \<longrightarrow> P k) \<longleftrightarrow> P a \<and> (\<forall>k. Suc a \<le> k \<and> k < b \<longrightarrow> P k)"
proof
  assume A: "\<forall>k. a \<le> k \<and> k < b \<longrightarrow> P k"
  have "P a" using A assms by simp
  moreover have "\<forall>k. Suc a \<le> k \<and> k < b \<longrightarrow> P k" using A by simp
  ultimately show "P a \<and> (\<forall>k. Suc a \<le> k \<and> k < b \<longrightarrow> P k)" ..
next
  assume B: "P a \<and> (\<forall>k. Suc a \<le> k \<and> k < b \<longrightarrow> P k)"
  show "\<forall>k. a \<le> k \<and> k < b \<longrightarrow> P k"
  proof (intro allI impI)
    fix k assume k: "a \<le> k \<and> k < b"
    show "P k"
    proof (cases "k = a")
      case True
      then show ?thesis using B by simp
    next
      case False
      then have "Suc a \<le> k" using k by simp
      then show ?thesis using B k by simp
    qed
  qed
qed

lemma pshufb_loop_run:
  assumes N0: "0 \<le> N"
    and body: "\<And>i M'. 0 \<le> i \<Longrightarrow> i < N \<Longrightarrow>
       body i M' = (if bit (tab (nat i) :: u64) 7 then Inr (push_back M' SZ)
                    else if ok (idx i) then Inr (push_back M' (idx i))
                    else Inl AssertionFailed)"
  shows "for_lt 0 N body M0 =
     (if \<forall>k < nat N. bit (tab k) 7 \<or> ok (idx (int k))
      then Inr (M0 @ map (\<lambda>k. if bit (tab k) 7 then SZ else idx (int k)) [0..<nat N])
      else Inl AssertionFailed)"
proof -
  let ?good = "\<lambda>k. bit (tab k) 7 \<or> ok (idx (int k))"
  let ?f = "\<lambda>k. if bit (tab k) 7 then SZ else idx (int k)"
  have "0 \<le> i \<Longrightarrow> i \<le> N \<Longrightarrow> for_lt i N body M' =
     (if \<forall>k. nat i \<le> k \<and> k < nat N \<longrightarrow> ?good k
      then Inr (M' @ map ?f [nat i..<nat N]) else Inl AssertionFailed)" for i M'
  proof (induction "nat (N - i)" arbitrary: i M')
    case 0
    then have ie: "i = N" by simp
    have "for_lt i N body M' = Inr M'" by (subst for_lt.simps) (simp add: ie)
    then show ?case using ie by simp
  next
    case (Suc n)
    then have lt: "i < N" by simp
    have i0: "0 \<le> i" by (rule Suc.prems(1))
    have ii: "int (nat i) = i" using i0 by simp
    have ni: "nat (i + 1) = Suc (nat i)" using i0 by simp
    have lt': "nat i < nat N" using lt i0 by simp
    have unf: "for_lt i N body M' =
        (case body i M' of Inl err \<Rightarrow> Inl err | Inr s1 \<Rightarrow> for_lt (i + 1) N body s1)"
      by (subst for_lt.simps) (simp add: lt)
    have n: "n = nat (N - (i + 1))" using Suc.hyps(2) by simp
    have IH: "for_lt (i + 1) N body M1 =
       (if \<forall>k. Suc (nat i) \<le> k \<and> k < nat N \<longrightarrow> ?good k
        then Inr (M1 @ map ?f [Suc (nat i)..<nat N]) else Inl AssertionFailed)" for M1
      using Suc.hyps(1) [OF n, of M1] i0 lt unfolding ni by simp
    have all: "(\<forall>k. nat i \<le> k \<and> k < nat N \<longrightarrow> ?good k)
        \<longleftrightarrow> ?good (nat i) \<and> (\<forall>k. Suc (nat i) \<le> k \<and> k < nat N \<longrightarrow> ?good k)"
      by (rule all_from_split [OF lt'])
    have upt: "[nat i..<nat N] = nat i # [Suc (nat i)..<nat N]"
      using lt' by (rule upt_conv_Cons)
    show ?case
    proof (cases "?good (nat i)")
      case False
      then have "body i M' = Inl AssertionFailed"
        using body [OF i0 lt, of M'] ii by simp
      then have "for_lt i N body M' = Inl AssertionFailed" unfolding unf by simp
      then show ?thesis using False all by simp
    next
      case True
      then have "body i M' = Inr (M' @ [?f (nat i)])"
        using body [OF i0 lt, of M'] ii by (auto simp: push_back_def)
      then have "for_lt i N body M' = for_lt (i + 1) N body (M' @ [?f (nat i)])"
        unfolding unf by simp
      then show ?thesis unfolding IH all upt using True by simp
    qed
  qed
  from this [of 0 M0] N0 show ?thesis by simp
qed

lemma all_less_cong:
  "(\<And>k. k < (n :: nat) \<Longrightarrow> A k = B k) \<Longrightarrow> (\<forall>k < n. A k) = (\<forall>k < n. B k)"
  by auto

lemma map_upt_cong:
  "(\<And>k. k < n \<Longrightarrow> f k = g k) \<Longrightarrow> map f [0..<n] = map g [0..<n]"
  by simp

lemma pshufb_ok_index:
  fixes x :: u64
  assumes b: "unat x < 256" and nb: "\<not> bit x 7" and base: "Base = 0 \<or> Base = (16 :: int)"
  shows "sint (ucast (word_of_int Base + x) :: u32) = int (unat (x AND 0x7F)) + Base"
    and "unat (word_of_int (sint (ucast (word_of_int Base + x) :: u32)) :: u32)
           = nat (int (unat (x AND 0x7F)) + Base)"
proof -
  note l7 = byte_low7 [OF b nb]
  have i: "sint (ucast (word_of_int Base + x) :: u32) = Base + int (unat x)"
    by (rule pshufb_index [OF l7(1) base])
  show v: "sint (ucast (word_of_int Base + x) :: u32) = int (unat (x AND 0x7F)) + Base"
    unfolding i l7(2) by simp
  have u: "int (unat x) < 128" using l7(1) by linarith
  have "0 \<le> Base + int (unat x)" "Base + int (unat x) < 2 ^ 32" using u base by auto
  then have "unat (word_of_int (Base + int (unat x)) :: u32) = nat (Base + int (unat x))"
    by (rule unat_word_of_int_small)
  then show "unat (word_of_int (sint (ucast (word_of_int Base + x) :: u32)) :: u32)
           = nat (int (unat (x AND 0x7F)) + Base)"
    unfolding i l7(2) by (simp add: add.commute)
qed

lemma DecodePSHUFBMask_RawMask_run:
  assumes len: "length RawMask < 2 ^ 31" and bytes: "\<forall>x \<in> set RawMask. unat x < 256"
  shows "DecodePSHUFBMask_RawMask SZ RawMask M0 =
     (if \<forall>i < length RawMask. bit (RawMask ! i) 7
           \<or> int (unat (RawMask ! i AND 0x7F)) + (if i < 16 then 0 else 16) < int (length RawMask)
      then Inr (M0 @ map (\<lambda>i. if bit (RawMask ! i) 7 then SZ
                               else int (unat (RawMask ! i AND 0x7F)) + (if i < 16 then 0 else 16))
                        [0..<length RawMask])
      else Inl AssertionFailed)"
proof -
  define n where "n = length RawMask"
  define idx where "idx i = sint (ucast (word_of_int (if i < 16 then 0 else 16) + RawMask ! nat i) :: u32)"
    for i :: int
  define ok where "ok x \<longleftrightarrow> x \<ge> 0 \<and> unat (word_of_int x :: u32) < length RawMask" for x :: int
  define val where "val i = int (unat (RawMask ! i AND 0x7F)) + (if i < 16 then 0 else 16)" for i :: nat
  have e: "sint (of_nat (length RawMask) :: u32) = int n"
    unfolding n_def by (rule sint_of_nat_u32 [OF len])
  have L: "for_lt 0 (int n)
      (\<lambda>i ShuffleMask.
          let M = RawMask ! nat i;
              Base = (if i < 16 then 0 else 16 :: int)
          in if M AND push_bit 7 1 \<noteq> 0
             then Inr (push_back ShuffleMask SZ)
             else
               let Index = sint (ucast (word_of_int Base + M) :: u32)
               in if \<not> (Index \<ge> 0 \<and> unat (word_of_int Index :: u32) < length RawMask)
                  then Inl AssertionFailed
                  else Inr (push_back ShuffleMask Index)) M0 =
     (if \<forall>k < nat (int n). bit (RawMask ! k) 7 \<or> ok (idx (int k))
      then Inr (M0 @ map (\<lambda>k. if bit (RawMask ! k) 7 then SZ else idx (int k)) [0..<nat (int n)])
      else Inl AssertionFailed)"
    by (rule pshufb_loop_run [where tab = "\<lambda>k. RawMask ! k"])
       (simp_all add: Let_def bit7_test' idx_def ok_def)
  have ix: "idx (int k) = val k" and okx: "ok (idx (int k)) = (val k < int n)"
    if k: "k < n" and nb: "\<not> bit (RawMask ! k) 7" for k
  proof -
    have b: "unat (RawMask ! k) < 256" using bytes k by (simp add: n_def)
    have base: "(if int k < 16 then 0 else 16) = 0 \<or> (if int k < 16 then 0 else 16) = (16 :: int)"
      by simp
    note P = pshufb_ok_index [OF b nb base]
    show v: "idx (int k) = val k" unfolding idx_def val_def using P(1) by simp
    have v0: "0 \<le> val k" by (simp add: val_def)
    have "unat (word_of_int (idx (int k)) :: u32) = nat (val k)"
      unfolding idx_def val_def using P(2) by simp
    then show "ok (idx (int k)) = (val k < int n)"
      unfolding ok_def v n_def using v0 by auto
  qed
  have cond: "(\<forall>k < n. bit (RawMask ! k) 7 \<or> ok (idx (int k)))
      = (\<forall>k < n. bit (RawMask ! k) 7 \<or> val k < int n)"
  proof (rule all_less_cong)
    fix k assume k: "k < n"
    show "(bit (RawMask ! k) 7 \<or> ok (idx (int k))) = (bit (RawMask ! k) 7 \<or> val k < int n)"
      using okx [OF k] by (cases "bit (RawMask ! k) 7") simp_all
  qed
  have mp: "map (\<lambda>k. if bit (RawMask ! k) 7 then SZ else idx (int k)) [0..<n]
      = map (\<lambda>k. if bit (RawMask ! k) 7 then SZ else val k) [0..<n]"
  proof (rule map_upt_cong)
    fix k assume k: "k < n"
    show "(if bit (RawMask ! k) 7 then SZ else idx (int k)) = (if bit (RawMask ! k) 7 then SZ else val k)"
      using ix [OF k] by (cases "bit (RawMask ! k) 7") simp_all
  qed
  have nn: "nat (int n) = n" by simp
  have "DecodePSHUFBMask_RawMask SZ RawMask M0 =
     (if \<forall>k < n. bit (RawMask ! k) 7 \<or> val k < int n
      then Inr (M0 @ map (\<lambda>k. if bit (RawMask ! k) 7 then SZ else val k) [0..<n])
      else Inl AssertionFailed)"
    unfolding DecodePSHUFBMask_RawMask_def Let_def e
    using L [unfolded Let_def nn cond mp] .
  then show ?thesis unfolding val_def n_def .
qed


lemma if_guards:
  assumes "D = (if \<not> a then E else if \<not> b then E else if \<not> c then E else if \<not> d then E else Lp)"
    and "a \<and> b \<and> c \<and> d \<Longrightarrow> Lp = (if A then R else E)"
  shows "D = (if a \<and> b \<and> c \<and> d \<and> A then R else E)"
  using assms by auto

lemma DecodePSHUFBMask_C_run:
  "DecodePSHUFBMask_C SZ C M0 =
     (if TypeIsVector C \<and> TypeElementBits C = 8
         \<and> (sint (TypeNumElements C) = 16 \<or> sint (TypeNumElements C) = 32)
         \<and> (word_of_int (sint (TypeNumElements C)) :: u32) = getNumElements C
         \<and> (\<forall>i < nat (sint (TypeNumElements C)). bit (getElementAsInteger C i) 7
               \<or> int (unat (getElementAsInteger C i AND 0x7F)) + (if i < 16 then 0 else 16)
                   < sint (TypeNumElements C))
      then Inr (M0 @ map (\<lambda>i. if bit (getElementAsInteger C i) 7 then SZ
                               else int (unat (getElementAsInteger C i AND 0x7F))
                                    + (if i < 16 then 0 else 16))
                        [0..<nat (sint (TypeNumElements C))])
      else Inl AssertionFailed)"
proof -
  define N where "N = sint (TypeNumElements C)"
  define LOOP where "LOOP = for_lt 0 N (\<lambda>i ShuffleMask.
                 let Base = (if i < 16 then 0 else 16 :: int);
                     Element = getElementAsInteger C (nat i)
                 in if Element AND push_bit 7 1 \<noteq> 0
                    then Inr (push_back ShuffleMask SZ)
                    else
                      let Index = sint (ucast (word_of_int Base + Element) :: u32)
                      in if \<not> (Index \<ge> 0 \<and> Index < N) then Inl AssertionFailed
                         else Inr (push_back ShuffleMask Index)) M0"
  define val where "val i = int (unat (getElementAsInteger C i AND 0x7F)) + (if i < 16 then 0 else 16)"
    for i :: nat
  define A where "A \<longleftrightarrow> (\<forall>k < nat N. bit (getElementAsInteger C k) 7 \<or> val k < N)"
  define Res where "Res = M0 @ map (\<lambda>k. if bit (getElementAsInteger C k) 7 then SZ else val k) [0..<nat N]"
  have D: "DecodePSHUFBMask_C SZ C M0 =
    (if \<not> TypeIsVector C then Inl AssertionFailed
     else if \<not> TypeElementBits C = 8 then Inl AssertionFailed
     else if \<not> (N = 16 \<or> N = 32) then Inl AssertionFailed
     else if \<not> (word_of_int N :: u32) = getNumElements C then Inl AssertionFailed
     else LOOP)"
    unfolding DecodePSHUFBMask_C_def LOOP_def N_def Let_def ..
  have loop: "LOOP = (if A then Inr Res else Inl AssertionFailed)"
    if T: "TypeIsVector C \<and> TypeElementBits C = 8 \<and> (N = 16 \<or> N = 32)
         \<and> (word_of_int N :: u32) = getNumElements C"
  proof -
    have bits: "TypeElementBits C = 8" and N: "N = 16 \<or> N = 32" using T by auto
    have N0: "0 \<le> N" using N by auto
    define idx where "idx i = sint (ucast (word_of_int (if i < 16 then 0 else 16) + getElementAsInteger C (nat i)) :: u32)"
      for i :: int
    define ok where "ok x \<longleftrightarrow> x \<ge> 0 \<and> x < N" for x :: int
    have L: "LOOP =
       (if \<forall>k < nat N. bit (getElementAsInteger C k) 7 \<or> ok (idx (int k))
        then Inr (M0 @ map (\<lambda>k. if bit (getElementAsInteger C k) 7 then SZ else idx (int k)) [0..<nat N])
        else Inl AssertionFailed)"
      unfolding LOOP_def
      by (rule pshufb_loop_run [OF N0, where tab = "\<lambda>k. getElementAsInteger C k"])
         (simp_all add: Let_def bit7_test' idx_def ok_def)
    have byte: "unat (getElementAsInteger C k) < 256" for k
    proof -
      have "ElementData C ! k mod 2 ^ 8 < 2 ^ 64"
        by (rule less_trans [of _ "2 ^ 8"]) simp_all
      then have "unat (of_nat (ElementData C ! k mod 2 ^ 8) :: u64) = ElementData C ! k mod 2 ^ 8"
        by (simp only: unat_of_nat) simp
      then show ?thesis unfolding getElementAsInteger_def bits by simp
    qed
    have ix: "idx (int k) = val k" and okx: "ok (idx (int k)) = (val k < N)"
      if nb: "\<not> bit (getElementAsInteger C k) 7" for k
    proof -
      have base: "(if int k < 16 then 0 else 16) = 0 \<or> (if int k < 16 then 0 else 16) = (16 :: int)"
        by simp
      note P = pshufb_ok_index [OF byte nb base]
      show v: "idx (int k) = val k" unfolding idx_def val_def using P(1) by simp
      have v0: "0 \<le> val k" by (simp add: val_def)
      show "ok (idx (int k)) = (val k < N)" unfolding ok_def v using v0 by simp
    qed
    have cond: "(\<forall>k < nat N. bit (getElementAsInteger C k) 7 \<or> ok (idx (int k))) = A"
      unfolding A_def
    proof (rule all_less_cong)
      fix k
      show "(bit (getElementAsInteger C k) 7 \<or> ok (idx (int k)))
          = (bit (getElementAsInteger C k) 7 \<or> val k < N)"
        using okx [of k] by (cases "bit (getElementAsInteger C k) 7") simp_all
    qed
    have mp: "M0 @ map (\<lambda>k. if bit (getElementAsInteger C k) 7 then SZ else idx (int k)) [0..<nat N]
        = Res"
      unfolding Res_def
    proof (rule arg_cong [where f = "\<lambda>x. M0 @ x"], rule map_upt_cong)
      fix k
      show "(if bit (getElementAsInteger C k) 7 then SZ else idx (int k))
          = (if bit (getElementAsInteger C k) 7 then SZ else val k)"
        using ix [of k] by (cases "bit (getElementAsInteger C k) 7") simp_all
    qed
    show ?thesis using L unfolding cond mp .
  qed
  have "DecodePSHUFBMask_C SZ C M0 =
     (if TypeIsVector C \<and> TypeElementBits C = 8 \<and> (N = 16 \<or> N = 32)
         \<and> (word_of_int N :: u32) = getNumElements C \<and> A
      then Inr Res else Inl AssertionFailed)"
    by (rule if_guards [OF D]) (rule loop)
  then show ?thesis unfolding A_def Res_def val_def N_def .
qed

lemma all_less_list: "(\<forall>i < n. P i) = list_all P [0..<n]"
  by (auto simp: list_all_iff)

text \<open>
  C5. Each byte-table decoder returns exactly when its asserts hold, and then it has pushed
  one entry per table position: the zero sentinel where bit 7 of the table entry is set,
  whatever its other bits are, and otherwise the entry's low 7 bits plus 0 when \<open>i < 16\<close> and
  plus 16 when \<open>i \<ge> 16\<close>. The asserts of the typed-constant decoder are that the constant is
  a vector of 16 or 32 bytes holding as many elements as its type declares; the assert of
  both is that each index pushed is below the table length. The raw table holds byte
  values (below 256) and fewer than \<open>2^31\<close> of them. In a 32-entry table an entry 5 at
  position 20 gives index 21 and at position 2 gives index 5.
\<close>

theorem DecodePSHUFBMask_entry:
  "DecodePSHUFBMask_C SZ C M0 =
     (if TypeIsVector C \<and> TypeElementBits C = 8
         \<and> (sint (TypeNumElements C) = 16 \<or> sint (TypeNumElements C) = 32)
         \<and> (word_of_int (sint (TypeNumElements C)) :: u32) = getNumElements C
         \<and> (\<forall>i < nat (sint (TypeNumElements C)). bit (getElementAsInteger C i) 7
               \<or> int (unat (getElementAsInteger C i AND 0x7F)) + (if i < 16 then 0 else 16)
                   < sint (TypeNumElements C))
      then Inr (M0 @ map (\<lambda>i. if bit (getElementAsInteger C i) 7 then SZ
                               else int (unat (getElementAsInteger C i AND 0x7F))
                                    + (if i < 16 then 0 else 16))
                        [0..<nat (sint (TypeNumElements C))])
      else Inl AssertionFailed)
   \<and> (length RawMask < 2 ^ 31 \<and> (\<forall>x \<in> set RawMask. unat x < 256) \<longrightarrow>
        DecodePSHUFBMask_RawMask SZ RawMask M0 =
          (if \<forall>i < length RawMask. bit (RawMask ! i) 7
                \<or> int (unat (RawMask ! i AND 0x7F)) + (if i < 16 then 0 else 16)
                    < int (length RawMask)
           then Inr (M0 @ map (\<lambda>i. if bit (RawMask ! i) 7 then SZ
                                    else int (unat (RawMask ! i AND 0x7F))
                                         + (if i < 16 then 0 else 16))
                             [0..<length RawMask])
           else Inl AssertionFailed))
   \<and> (DecodePSHUFBMask_C SZ C M0 = Inr M \<and> sint (TypeNumElements C) = 32 \<longrightarrow>
        (getElementAsInteger C 20 = 5 \<longrightarrow> M ! (length M0 + 20) = 21)
        \<and> (getElementAsInteger C 2 = 5 \<longrightarrow> M ! (length M0 + 2) = 5))
   \<and> (DecodePSHUFBMask_RawMask SZ RawMask M0 = Inr M' \<and> length RawMask = 32
        \<and> (\<forall>x \<in> set RawMask. unat x < 256) \<longrightarrow>
        (RawMask ! 20 = 5 \<longrightarrow> M' ! (length M0 + 20) = 21)
        \<and> (RawMask ! 2 = 5 \<longrightarrow> M' ! (length M0 + 2) = 5))"
proof (intro conjI impI)
  show "DecodePSHUFBMask_C SZ C M0 =
     (if TypeIsVector C \<and> TypeElementBits C = 8
         \<and> (sint (TypeNumElements C) = 16 \<or> sint (TypeNumElements C) = 32)
         \<and> (word_of_int (sint (TypeNumElements C)) :: u32) = getNumElements C
         \<and> (\<forall>i < nat (sint (TypeNumElements C)). bit (getElementAsInteger C i) 7
               \<or> int (unat (getElementAsInteger C i AND 0x7F)) + (if i < 16 then 0 else 16)
                   < sint (TypeNumElements C))
      then Inr (M0 @ map (\<lambda>i. if bit (getElementAsInteger C i) 7 then SZ
                               else int (unat (getElementAsInteger C i AND 0x7F))
                                    + (if i < 16 then 0 else 16))
                        [0..<nat (sint (TypeNumElements C))])
      else Inl AssertionFailed)"
    by (rule DecodePSHUFBMask_C_run)
next
  assume "length RawMask < 2 ^ 31 \<and> (\<forall>x \<in> set RawMask. unat x < 256)"
  then have len: "length RawMask < 2 ^ 31" and bytes: "\<forall>x \<in> set RawMask. unat x < 256"
    by blast+
  show "DecodePSHUFBMask_RawMask SZ RawMask M0 =
          (if \<forall>i < length RawMask. bit (RawMask ! i) 7
                \<or> int (unat (RawMask ! i AND 0x7F)) + (if i < 16 then 0 else 16)
                    < int (length RawMask)
           then Inr (M0 @ map (\<lambda>i. if bit (RawMask ! i) 7 then SZ
                                    else int (unat (RawMask ! i AND 0x7F))
                                         + (if i < 16 then 0 else 16))
                             [0..<length RawMask])
           else Inl AssertionFailed)"
    by (rule DecodePSHUFBMask_RawMask_run [OF len bytes])
next
  assume a: "DecodePSHUFBMask_C SZ C M0 = Inr M \<and> sint (TypeNumElements C) = 32"
  then have run: "DecodePSHUFBMask_C SZ C M0 = Inr M" and n: "sint (TypeNumElements C) = 32"
    by blast+
  note E = PSHUFB_C_entries [OF run]
  have A: "k < 32 \<Longrightarrow> M ! (length M0 + k) =
           (if bit (getElementAsInteger C k) 7 then SZ
            else int (unat (getElementAsInteger C k AND 0x7F)) + (if k < 16 then 0 else 16))" for k
    using E n by simp
  { assume "getElementAsInteger C 20 = 5"
    then show "M ! (length M0 + 20) = 21" using A [of 20] by simp }
  { assume "getElementAsInteger C 2 = 5"
    then show "M ! (length M0 + 2) = 5" using A [of 2] by simp }
next
  assume a: "DecodePSHUFBMask_RawMask SZ RawMask M0 = Inr M' \<and> length RawMask = 32
        \<and> (\<forall>x \<in> set RawMask. unat x < 256)"
  then have run: "DecodePSHUFBMask_RawMask SZ RawMask M0 = Inr M'"
    and n: "length RawMask = 32" and bytes: "\<forall>x \<in> set RawMask. unat x < 256"
    by blast+
  have len: "length RawMask < 2 ^ 31" using n by simp
  note E = PSHUFB_RawMask_entries [OF run len bytes]
  have A: "k < 32 \<Longrightarrow> M' ! (length M0 + k) =
           (if bit (RawMask ! k) 7 then SZ
            else int (unat (RawMask ! k AND 0x7F)) + (if k < 16 then 0 else 16))" for k
    using E n by simp
  { assume "RawMask ! 20 = 5"
    then show "M' ! (length M0 + 20) = 21" using A [of 20] by simp }
  { assume "RawMask ! 2 = 5"
    then show "M' ! (length M0 + 2) = 5" using A [of 2] by simp }
qed

theorem DecodePSHUFBMask_entry_witness:
  "length (0x85 # replicate 31 (5 :: u64)) < 2 ^ 31
   \<and> DecodePSHUFBMask_C (- 1)
       \<lparr>TypeIsVector = True, TypeElementBits = 8, TypeNumElements = 32,
        ElementData = 0x85 # replicate 31 5\<rparr> []
     = Inr (- 1 # replicate 15 5 @ replicate 16 21)
   \<and> DecodePSHUFBMask_RawMask (- 1) (0x85 # replicate 31 5) []
     = Inr (- 1 # replicate 15 5 @ replicate 16 21)
   \<and> (- 1 # replicate 15 5 @ replicate 16 (21 :: int)) ! 20 = 21
   \<and> (- 1 # replicate 15 5 @ replicate 16 (21 :: int)) ! 2 = 5
   \<and> (- 1 # replicate 15 5 @ replicate 16 (21 :: int)) ! 0 = - 1"
proof -
  let ?C = "\<lparr>TypeIsVector = True, TypeElementBits = 8, TypeNumElements = 32,
      ElementData = 0x85 # replicate 31 5\<rparr>"
  let ?T = "0x85 # replicate 31 (5 :: u64)"
  let ?R = "- 1 # replicate 15 5 @ replicate 16 (21 :: int)"
  note T = DecodePSHUFBMask_entry [of "- 1" ?C "[]" ?T ?R ?R]
  have len: "length ?T < 2 ^ 31" and bytes: "\<forall>x \<in> set ?T. unat x < 256" by simp_all
  have n: "length ?T = 32" and t20: "?T ! 20 = 5" and t2: "?T ! 2 = 5" by simp_all
  have pre: "TypeIsVector ?C \<and> TypeElementBits ?C = 8
         \<and> (sint (TypeNumElements ?C) = 16 \<or> sint (TypeNumElements ?C) = 32)
         \<and> (word_of_int (sint (TypeNumElements ?C)) :: u32) = getNumElements ?C
         \<and> (\<forall>i < nat (sint (TypeNumElements ?C)). bit (getElementAsInteger ?C i) 7
               \<or> int (unat (getElementAsInteger ?C i AND 0x7F)) + (if i < 16 then 0 else 16)
                   < sint (TypeNumElements ?C))"
    unfolding all_less_list by code_simp
  have accT: "\<forall>i < length ?T. bit (?T ! i) 7
                \<or> int (unat (?T ! i AND 0x7F)) + (if i < 16 then 0 else 16) < int (length ?T)"
    unfolding all_less_list by code_simp
  have mC: "[] @ map (\<lambda>i. if bit (getElementAsInteger ?C i) 7 then - 1
                               else int (unat (getElementAsInteger ?C i AND 0x7F))
                                    + (if i < 16 then 0 else 16))
                        [0..<nat (sint (TypeNumElements ?C))] = ?R"
    by code_simp
  have mT: "[] @ map (\<lambda>i. if bit (?T ! i) 7 then - 1
                                    else int (unat (?T ! i AND 0x7F))
                                         + (if i < 16 then 0 else 16))
                             [0..<length ?T] = ?R"
    by code_simp
  have rC: "DecodePSHUFBMask_C (- 1) ?C [] = Inr ?R"
    using trans [OF T [THEN conjunct1] if_P [OF pre]] by (simp only: mC)
  have rT: "DecodePSHUFBMask_RawMask (- 1) ?T [] = Inr ?R"
    using trans [OF T [THEN conjunct2, THEN conjunct1, rule_format, OF conjI [OF len bytes]]
        if_P [OF accT]]
    by (simp only: mT)
  have "?R ! (length ([] :: int list) + 20) = 21" "?R ! (length ([] :: int list) + 2) = 5"
    using T [THEN conjunct2, THEN conjunct2, THEN conjunct2] rT n bytes t20 t2
    by blast+
  then have "?R ! 20 = 21" "?R ! 2 = 5" by simp_all
  moreover have "?R ! 0 = - 1" by simp
  ultimately show ?thesis using rC rT len by simp
qed

section \<open>The align decoder on elements wider than a byte\<close>

lemma run_PALIGNR_8x16_1:
  "DecodePALIGNRMask \<lparr>VectorNumElements = 8, ElementSizeInBits = 16\<rparr> 1 []
     = Some (Inr [2, 3, 4, 5, 6, 7, 8, 9])"
  by code_simp

lemma run_PALIGNR_4x32_1:
  "DecodePALIGNRMask \<lparr>VectorNumElements = 4, ElementSizeInBits = 32\<rparr> 1 []
     = Some (Inr [4, 5, 6, 7])"
  by code_simp

lemma run_PALIGNR_2x64_1:
  "DecodePALIGNRMask \<lparr>VectorNumElements = 2, ElementSizeInBits = 64\<rparr> 1 []
     = Some (Inr [8, 9])"
  by code_simp

lemma run_PALIGNR_16x8_1:
  "DecodePALIGNRMask \<lparr>VectorNumElements = 16, ElementSizeInBits = 8\<rparr> 1 []
     = Some (Inr [1, 2, 3, 4, 5, 6, 7, 8, 9, 10, 11, 12, 13, 14, 15, 16])"
  by code_simp

text \<open>
  C4 at one element. The align decoder multiplies the immediate by the element size in
  bytes and adds the product, a number of bytes, to the element index \<open>i\<close>, which it then
  compares with the number of elements of a lane. With the immediate 1, eight 16-bit
  elements decode to 2 to 9 where \<open>i + Offset / elementSize\<close> is 1 to 8; four 32-bit elements
  decode to 4 to 7 and two 64-bit elements to 8 and 9, indices that for the latter name no
  element of either source (they have 2 each). On byte elements, where a byte is an
  element, sixteen elements decode to 1 to 16.
\<close>

theorem DecodePALIGNRMask_byte_offset:
  "DecodePALIGNRMask \<lparr>VectorNumElements = 8, ElementSizeInBits = 16\<rparr> 1 []
     = Some (Inr [2, 3, 4, 5, 6, 7, 8, 9])
   \<and> [2, 3, 4, 5, 6, 7, 8, 9 :: int] ! 0 \<noteq> int (0 + (1 * (16 div 8)) div (16 div 8))
   \<and> DecodePALIGNRMask \<lparr>VectorNumElements = 4, ElementSizeInBits = 32\<rparr> 1 []
     = Some (Inr [4, 5, 6, 7])
   \<and> [4, 5, 6, 7 :: int] ! 0 \<noteq> int (0 + (1 * (32 div 8)) div (32 div 8))
   \<and> DecodePALIGNRMask \<lparr>VectorNumElements = 2, ElementSizeInBits = 64\<rparr> 1 []
     = Some (Inr [8, 9])
   \<and> [8, 9 :: int] ! 0 \<noteq> int (0 + (1 * (64 div 8)) div (64 div 8))
   \<and> \<not> [8, 9 :: int] ! 0 < 2 * 2
   \<and> DecodePALIGNRMask \<lparr>VectorNumElements = 16, ElementSizeInBits = 8\<rparr> 1 []
     = Some (Inr [1, 2, 3, 4, 5, 6, 7, 8, 9, 10, 11, 12, 13, 14, 15, 16])
   \<and> [1, 2, 3, 4, 5, 6, 7, 8, 9, 10, 11, 12, 13, 14, 15, 16 :: int] ! 0
       = int (0 + (1 * (8 div 8)) div (8 div 8))"
  using run_PALIGNR_8x16_1 run_PALIGNR_4x32_1 run_PALIGNR_2x64_1 run_PALIGNR_16x8_1 by simp

section \<open>The byte-table decoders across the halves\<close>

lemma PSHUFB_RawMask_run_20_at_20:
  "DecodePSHUFBMask_RawMask (- 1) (replicate 20 0 @ [20] @ replicate 11 0) []
     = Inl AssertionFailed"
  by code_simp

lemma PSHUFB_C_run_20_at_20:
  "DecodePSHUFBMask_C (- 1)
     \<lparr>TypeIsVector = True, TypeElementBits = 8, TypeNumElements = 32,
      ElementData = replicate 20 0 @ [20] @ replicate 11 0\<rparr> []
     = Inl AssertionFailed"
  by code_simp

lemma PSHUFB_RawMask_run_20_of_16:
  "DecodePSHUFBMask_RawMask (- 1) (replicate 2 0 @ [20] @ replicate 13 0) []
     = Inl AssertionFailed"
  by code_simp

lemma PSHUFB_C_run_20_of_16:
  "DecodePSHUFBMask_C (- 1)
     \<lparr>TypeIsVector = True, TypeElementBits = 8, TypeNumElements = 16,
      ElementData = replicate 2 0 @ [20] @ replicate 13 0\<rparr> []
     = Inl AssertionFailed"
  by code_simp

text \<open>
  C6 at a 32-entry table that is 0 everywhere except for 20 at position 2 and 5 at position
  20. Both byte-table decoders accept it and push the index 20 for position 2, an index of
  the upper half for a position of the lower half. Their comment says that the base of the
  shuffle is the half of the vector the position is in, and the assert that lets this
  index pass stops the same entry 20 at position 20 of a 32-entry table (index 36) and at
  position 2 of a 16-entry table: it bounds the index by the table length, not by the end
  of the half.
\<close>

theorem DecodePSHUFBMask_lower_half_leak:
  "DecodePSHUFBMask_RawMask (- 1) ([0, 0, 20, 0, 0, 0, 0, 0, 0, 0, 0, 0, 0, 0, 0, 0, 0, 0, 0, 0, 5, 0, 0, 0, 0, 0, 0, 0, 0, 0, 0, 0]) []
     = Inr ([0, 0, 20, 0, 0, 0, 0, 0, 0, 0, 0, 0, 0, 0, 0, 0, 16, 16, 16, 16, 21, 16, 16, 16, 16, 16, 16, 16, 16, 16, 16, 16])
   \<and> DecodePSHUFBMask_C (- 1)
     \<lparr>TypeIsVector = True, TypeElementBits = 8, TypeNumElements = 32,
      ElementData = [0, 0, 20, 0, 0, 0, 0, 0, 0, 0, 0, 0, 0, 0, 0, 0, 0, 0, 0, 0, 5, 0, 0, 0, 0, 0, 0, 0, 0, 0, 0, 0]\<rparr> []
     = Inr ([0, 0, 20, 0, 0, 0, 0, 0, 0, 0, 0, 0, 0, 0, 0, 0, 16, 16, 16, 16, 21, 16, 16, 16, 16, 16, 16, 16, 16, 16, 16, 16])
   \<and> [0 :: int, 0, 20, 0, 0, 0, 0, 0, 0, 0, 0, 0, 0, 0, 0, 0, 16, 16, 16, 16, 21, 16, 16, 16, 16, 16, 16, 16, 16, 16, 16, 16] ! 2 \<noteq> - 1
   \<and> \<not> [0 :: int, 0, 20, 0, 0, 0, 0, 0, 0, 0, 0, 0, 0, 0, 0, 0, 16, 16, 16, 16, 21, 16, 16, 16, 16, 16, 16, 16, 16, 16, 16, 16] ! 2 < 16
   \<and> DecodePSHUFBMask_RawMask (- 1) (replicate 20 0 @ [20] @ replicate 11 0) []
     = Inl AssertionFailed
   \<and> DecodePSHUFBMask_C (- 1)
     \<lparr>TypeIsVector = True, TypeElementBits = 8, TypeNumElements = 32,
      ElementData = replicate 20 0 @ [20] @ replicate 11 0\<rparr> []
     = Inl AssertionFailed
   \<and> DecodePSHUFBMask_RawMask (- 1) (replicate 2 0 @ [20] @ replicate 13 0) []
     = Inl AssertionFailed
   \<and> DecodePSHUFBMask_C (- 1)
     \<lparr>TypeIsVector = True, TypeElementBits = 8, TypeNumElements = 16,
      ElementData = replicate 2 0 @ [20] @ replicate 13 0\<rparr> []
     = Inl AssertionFailed"
  using PSHUFB_RawMask_run_20 PSHUFB_C_run_20 PSHUFB_RawMask_run_20_at_20 PSHUFB_C_run_20_at_20
    PSHUFB_RawMask_run_20_of_16 PSHUFB_C_run_20_of_16
  by simp

end
